theory Spec2Isabelle
  imports Main "HOL-Library.Word"
begin

section \<open>The Python module \<open>pylcf\<close> (tools/python/index.cpp)\<close>

subsection \<open>Data\<close>

text \<open>
  The four file kinds of the format family, and the objects a load can hand back.
  The library's loaders return a \<open>unique_ptr\<close> that is null on failure, so every
  loaded object is an \<open>option\<close>.  Of \<open>rpg::Database\<close> only
  \<open>system.system_name\<close> is read by the module; both records are extensible and
  the remaining fields live in their extension part.
\<close>

datatype file_kind = LDB | LMT | LMU | LSD

record rpg_system =
  system_name :: string

record rpg_database =
  system :: rpg_system

datatype ('m, 't, 's) LcfObject =
    ObjMap "'m option"
  | ObjTreeMap "'t option"
  | ObjSave "'s option"
  | ObjDatabase "rpg_database option"
  | ObjNone

text \<open>
  Calls into the library and the interpreter that the module makes, in order.  The
  trace is what makes "the second parse runs with encoding \<open>e\<close>" a statement about
  the model.
\<close>

datatype event =
    Load file_kind string string
  | DetectEncodings
  | Print string

text \<open>
  The module-level state: the static \<open>parsed_encoding\<close>, and the trace of calls
  made so far.
\<close>

record world =
  parsed_encoding :: string
  calls :: "event list"

text \<open>
  The collaborators the module is linked against, none of which is defined in
  index.cpp: the four \<open>Load\<close> functions, \<open>ReaderUtil::DetectEncodings\<close>,
  \<open>ReaderUtil::Recode\<close>, \<open>ReaderUtil::GetLocaleEncoding\<close>, and the file
  system.  \<open>file_bytes\<close> is the content an \<open>ifstream\<close> on the path delivers
  (empty when the file cannot be opened); \<open>system_path\<close> is
  \<open>canonical(path).parent_path() / "System" / name\<close> as a string.
\<close>

record ('m, 't, 's) env =
  file_bytes :: "string \<Rightarrow> string"
  LDB_Load :: "string \<Rightarrow> string \<Rightarrow> rpg_database option"
  LMT_Load :: "string \<Rightarrow> string \<Rightarrow> 't option"
  LMU_Load :: "string \<Rightarrow> string \<Rightarrow> 'm option"
  LSD_Load :: "string \<Rightarrow> string \<Rightarrow> 's option"
  DetectEncodings_of :: "rpg_database \<Rightarrow> string list"
  Recode :: "string \<Rightarrow> string \<Rightarrow> string"
  system_path :: "string \<Rightarrow> string \<Rightarrow> string"
  path_exists :: "string \<Rightarrow> bool"
  GetLocaleEncoding :: string

text \<open>Dereferencing a null \<open>unique_ptr\<close> (\<open>*db\<close> after a failed load).\<close>

datatype fault = NullDereference

definition log :: "event \<Rightarrow> world \<Rightarrow> world" where
  "log e w = w\<lparr>calls := calls w @ [e]\<rparr>"

subsection \<open>\<open>StringIsAscii\<close>\<close>

definition StringIsAscii :: "string \<Rightarrow> bool" where
  "StringIsAscii s = list_all (\<lambda>c. (of_char c :: nat) < 128) s"

subsection \<open>The map-unit file name\<close>

text \<open>
  \<open>stream << "Map" << std::setw(4) << std::setfill('0') << *id << ".lmu"\<close>:
  the decimal text of an \<open>int\<close>, filled on the left with \<open>'0'\<close> up to a
  minimum width of four characters (the sign, when there is one, is part of the text
  being filled).
\<close>

fun decimal :: "nat \<Rightarrow> string" where
  "decimal n = (if n < 10 then [char_of (48 + n)]
                else decimal (n div 10) @ [char_of (48 + n mod 10)])"

declare decimal.simps [simp del]

definition show_int :: "int \<Rightarrow> string" where
  "show_int i = (if i < 0 then CHR ''-'' # decimal (nat (- i)) else decimal (nat i))"

definition setw_setfill :: "nat \<Rightarrow> char \<Rightarrow> string \<Rightarrow> string" where
  "setw_setfill n c s = replicate (n - length s) c @ s"

definition map_path :: "32 word \<Rightarrow> string" where
  "map_path n = ''Map'' @ setw_setfill 4 (CHR ''0'') (show_int (sint n)) @ ''.lmu''"

datatype path_or_id = Id "32 word" | Path string

fun resolve_path :: "path_or_id \<Rightarrow> string" where
  "resolve_path (Id n) = map_path n"
| "resolve_path (Path full_path) = full_path"

subsection \<open>\<open>encoding\<close>\<close>

definition encoding :: "string \<Rightarrow> world \<Rightarrow> string \<times> world" where
  "encoding enc w =
     (if enc = [] then (parsed_encoding w, w)
      else (enc, w\<lparr>parsed_encoding := enc\<rparr>))"

subsection \<open>The heuristic shared by \<open>read_lcf\<close> and \<open>read_ldb\<close>\<close>

text \<open>
  The candidate loop: the first candidate for which the system name is not ASCII and
  the recoded name exists under \<open>System/\<close> ends the loop; what the loop assigns to
  \<open>encoding\<close> and \<open>parsed_encoding\<close> is \<open>system_path.string()\<close>.
\<close>

fun probe :: "('m, 't, 's) env \<Rightarrow> string \<Rightarrow> rpg_database \<Rightarrow> string list \<Rightarrow> string option" where
  "probe E path db [] = None"
| "probe E path db (candidate # rest) =
     (if \<not> StringIsAscii (system_name (system db)) then
        (let sp = system_path E path (Recode E (system_name (system db)) candidate)
         in if path_exists E sp then Some sp else probe E path db rest)
      else probe E path db rest)"

text \<open>
  The body of \<open>if (encoding.empty() || encoding == "auto") { ... }\<close> up to the
  reparse, which is the same text in both functions: it returns the encoding for the
  second parse and the updated module state.
\<close>

definition heuristic ::
  "('m, 't, 's) env \<Rightarrow> string \<Rightarrow> rpg_database \<Rightarrow> string \<Rightarrow> world \<Rightarrow> string \<times> world" where
  "heuristic E path db enc w =
     (let candidates = DetectEncodings_of E db;
          w1 = log DetectEncodings w;
          (enc1, w2) = (case probe E path db candidates of
                          Some sp \<Rightarrow> (sp, w1\<lparr>parsed_encoding := sp\<rparr>)
                        | None \<Rightarrow> (enc, w1))
      in case candidates of
           c # _ \<Rightarrow> (if enc1 = [] then (c, w2\<lparr>parsed_encoding := c\<rparr>) else (enc1, w2))
         | [] \<Rightarrow> (if enc1 = [] then (GetLocaleEncoding E, w2) else (enc1, w2)))"

text \<open>
  First parse, heuristic, second parse.  The first parse has already happened when
  this runs; a null \<open>db\<close> is dereferenced by \<open>DetectEncodings(*db)\<close>.
\<close>

definition detect_and_reparse ::
  "('m, 't, 's) env \<Rightarrow> string \<Rightarrow> rpg_database option \<Rightarrow> string \<Rightarrow> world
     \<Rightarrow> (fault + rpg_database option) \<times> world" where
  "detect_and_reparse E path db enc w =
     (case db of
        None \<Rightarrow> (Inl NullDereference, w)
      | Some d \<Rightarrow>
          (let (enc', w') = heuristic E path d enc w
           in (Inr (LDB_Load E path enc'), log (Load LDB path enc') w')))"

subsection \<open>\<open>read_ldb\<close>, \<open>read_lmt\<close>, \<open>read_lmu\<close>\<close>

definition read_ldb ::
  "('m, 't, 's) env \<Rightarrow> string \<Rightarrow> string \<Rightarrow> world \<Rightarrow> (fault + rpg_database option) \<times> world" where
  "read_ldb E path enc w =
     (let db = LDB_Load E path enc;
          w1 = log (Load LDB path enc) w
      in if enc = [] \<or> enc = ''auto'' then detect_and_reparse E path db enc w1
         else (Inr db, w1))"

definition read_lmt ::
  "('m, 't, 's) env \<Rightarrow> string \<Rightarrow> string \<Rightarrow> world \<Rightarrow> 't option \<times> world" where
  "read_lmt E path enc w =
     (let enc1 = (if enc = [] \<or> enc = ''auto'' then parsed_encoding w else enc)
      in (LMT_Load E path enc1, log (Load LMT path enc1) w))"

definition read_lmu ::
  "('m, 't, 's) env \<Rightarrow> path_or_id \<Rightarrow> string \<Rightarrow> world \<Rightarrow> 'm option \<times> world" where
  "read_lmu E path_or_id enc w =
     (let enc1 = (if enc = [] \<or> enc = ''auto'' then parsed_encoding w else enc);
          path = resolve_path path_or_id
      in (LMU_Load E path enc1, log (Load LMU path enc1) w))"

subsection \<open>\<open>read_lcf\<close>\<close>

text \<open>
  \<open>file.seekg(1); file.read(buffer, 10); std::string header(buffer)\<close> on a
  zero-initialised buffer: the ten bytes after the first one, cut at the first NUL.
\<close>

definition read_header :: "string \<Rightarrow> string" where
  "read_header bytes = takeWhile (\<lambda>c. c \<noteq> CHR 0x00) (take 10 (drop 1 bytes))"

definition read_lcf ::
  "('m, 't, 's) env \<Rightarrow> path_or_id \<Rightarrow> string \<Rightarrow> world
     \<Rightarrow> (fault + ('m, 't, 's) LcfObject) \<times> world" where
  "read_lcf E path_or_id enc w =
     (let path = resolve_path path_or_id;
          header = read_header (file_bytes E path);
          enc1 = (if enc = [] \<or> enc = ''auto'' then parsed_encoding w else enc)
      in if header = ''LcfDataBas'' then
           (let db = LDB_Load E path enc1;
                w1 = log (Load LDB path enc1) w
            in if enc1 = [] \<or> enc1 = ''auto'' then
                 (case detect_and_reparse E path db enc1 w1 of
                    (Inl f, w2) \<Rightarrow> (Inl f, w2)
                  | (Inr db', w2) \<Rightarrow> (Inr (ObjDatabase db'), w2))
               else (Inr (ObjDatabase db), w1))
         else
           (let enc2 = (if enc1 = [] then GetLocaleEncoding E else enc1)
            in if header = ''LcfMapTree'' then
                 (Inr (ObjTreeMap (LMT_Load E path enc2)), log (Load LMT path enc2) w)
               else if header = ''LcfSaveDat'' then
                 (Inr (ObjSave (LSD_Load E path enc2)), log (Load LSD path enc2) w)
               else if header = ''LcfMapUnit'' then
                 (Inr (ObjMap (LMU_Load E path enc2)), log (Load LMU path enc2) w)
               else (Inr ObjNone, log (Print path) w)))"

text \<open>The signature literals \<open>read_lcf\<close> compares the header with, by file kind.\<close>

fun signature :: "file_kind \<Rightarrow> string" where
  "signature LDB = ''LcfDataBas''"
| "signature LMT = ''LcfMapTree''"
| "signature LSD = ''LcfSaveDat''"
| "signature LMU = ''LcfMapUnit''"

subsection \<open>A concrete game directory\<close>

text \<open>
  An environment for evaluating the module on concrete inputs: one database file
  \<open>RPG_RT.ldb\<close> whose system name is \<open>name\<close>, one map tree
  \<open>RPG_RT.lmt\<close>, a detector answering \<open>candidates\<close>, and the files
  \<open>existing\<close> under \<open>/game/System/\<close>.
\<close>

definition fixture_db :: "string \<Rightarrow> rpg_database" where
  "fixture_db name = \<lparr>system = \<lparr>system_name = name\<rparr>\<rparr>"

definition fixture_env :: "string list \<Rightarrow> string \<Rightarrow> string list \<Rightarrow> (unit, unit, unit) env" where
  "fixture_env candidates name existing =
     \<lparr>file_bytes = (\<lambda>p. if p = ''RPG_RT.ldb'' then CHR 0x0B # ''LcfDataBase''
                        else if p = ''RPG_RT.lmt'' then CHR 0x0A # ''LcfMapTree''
                        else []),
      LDB_Load = (\<lambda>p e. if p = ''RPG_RT.ldb'' then Some (fixture_db name) else None),
      LMT_Load = (\<lambda>p e. if p = ''RPG_RT.lmt'' then Some () else None),
      LMU_Load = (\<lambda>p e. None),
      LSD_Load = (\<lambda>p e. None),
      DetectEncodings_of = (\<lambda>db. candidates),
      Recode = (\<lambda>s c. ''name-in-'' @ c),
      system_path = (\<lambda>p n. ''/game/System/'' @ n),
      path_exists = (\<lambda>p. p \<in> set existing),
      GetLocaleEncoding = ''UTF-8''\<rparr>"

definition w0 :: world where
  "w0 = \<lparr>parsed_encoding = [], calls = []\<rparr>"

definition sjis_name :: string where
  "sjis_name = [CHR 0x83, CHR 0x56]"

text \<open>The claim's reading of the file name: exactly four decimal digits.\<close>

definition four_digits :: "nat \<Rightarrow> string" where
  "four_digits k = [char_of (48 + k div 1000 mod 10), char_of (48 + k div 100 mod 10),
                    char_of (48 + k div 10 mod 10), char_of (48 + k mod 10)]"

section \<open>The chunk codec\<close>

text \<open>
  The primitive codec and the generic record reader and writer live in
  \<open>reader_struct_impl.h\<close> and the \<open>lcf\<close> library, which index.cpp only
  includes.  This section models them from the specification (sections 3, 4.1 to 4.4
  and 7); every definition says which sentence it follows and what it fixes where the
  sentence leaves a choice.
\<close>

subsection \<open>Errors and bytes\<close>

type_synonym byte = "8 word"

text \<open>
  Modelled from the spec: the error taxonomy of section 7 (the library's error
  reporting is not in index.cpp).  \<open>OutOfBounds\<close> is not part of the taxonomy: it
  is what a read outside the stream gives, which section 8 says the reader never
  does; the two read primitives below return it, so that the statement can be proved
  of the reader.
\<close>

datatype error =
    TruncatedStream
  | MalformedChunk
  | UnrecognizedFormat
  | UnsupportedEncoding
  | IOFailure
  | OutOfBounds

subsection \<open>Reading from the stream\<close>

text \<open>
  Modelled from the spec: the two accesses to the input stream, "a random-accessible
  or rewindable byte stream" (missing: the library's stream class).  The cursor is
  the list of bytes still to be read.  \<open>read_byte\<close> takes the next byte and
  \<open>read_block\<close> the next \<open>n\<close> bytes; asked for bytes the stream does not
  have, they answer \<open>OutOfBounds\<close>.
\<close>

definition read_byte :: "byte list \<Rightarrow> error + (byte \<times> byte list)" where
  "read_byte bs = (case bs of [] \<Rightarrow> Inl OutOfBounds | b # rest \<Rightarrow> Inr (b, rest))"

definition read_block :: "nat \<Rightarrow> byte list \<Rightarrow> error + (byte list \<times> byte list)" where
  "read_block n bs =
     (if length bs < n then Inl OutOfBounds else Inr (take n bs, drop n bs))"

subsection \<open>Primitive codec\<close>

text \<open>
  Modelled from the spec: "the target integer width" of \<open>decode_varint\<close>, which
  the specification names but does not give; the library's integer reader is missing.
  It is fixed at 32 bits, and the proofs below use only that it is positive.
\<close>

definition target_width :: nat where
  "target_width = 32"

text \<open>
  Modelled from the spec: \<open>encode_varint\<close> (missing: the library's integer
  writer), "base-128 little-endian", "always emit the minimal-length varint encoding":
  seven bits per byte, low group first, the high bit set on every byte but the last.
\<close>

fun encode_varint :: "nat \<Rightarrow> byte list" where
  "encode_varint n =
     (if n < 128 then [of_nat n]
      else of_nat (128 + n mod 128) # encode_varint (n div 128))"

declare encode_varint.simps [simp del]

text \<open>
  Modelled from the spec: the digit loop of \<open>decode_varint\<close> (missing: the
  library's integer reader).  It asks for a byte only where the stream has one: "the
  stream ends mid-sequence" is \<open>TruncatedStream\<close>.
\<close>

function decode_digits :: "byte list \<Rightarrow> error + (nat \<times> byte list)" where
  "decode_digits bs =
     (if bs = [] then Inl TruncatedStream
      else (case read_byte bs of
              Inl e \<Rightarrow> Inl e
            | Inr (b, rest) \<Rightarrow>
                if unat b < 128 then Inr (unat b, rest)
                else (case decode_digits rest of
                        Inl e \<Rightarrow> Inl e
                      | Inr (v, rest') \<Rightarrow> Inr (unat b - 128 + 128 * v, rest'))))"
  by pat_completeness auto
termination
  by (relation "measure length") (auto simp add: read_byte_def split: list.splits)

declare decode_digits.simps [simp del]

lemma decode_digits_Nil [simp]: "decode_digits [] = Inl TruncatedStream"
  by (subst decode_digits.simps) simp

lemma decode_digits_Cons [simp]:
  "decode_digits (b # bs) =
     (if unat b < 128 then Inr (unat b, bs)
      else (case decode_digits bs of
              Inl e \<Rightarrow> Inl e
            | Inr (v, rest) \<Rightarrow> Inr (unat b - 128 + 128 * v, rest)))"
  by (subst decode_digits.simps) (simp add: read_byte_def)

text \<open>
  Modelled from the spec: \<open>decode_varint(cursor) -> (value, bytes_consumed)\<close>
  (missing: the library's integer reader), which "fails with TruncatedStream if the
  stream ends mid-sequence or the encoded value would overflow the target integer
  width".  The cursor is the list of bytes still to be read, and the result carries
  the bytes left after the integer.
\<close>

definition decode_varint :: "byte list \<Rightarrow> error + (nat \<times> byte list)" where
  "decode_varint bs =
     (case decode_digits bs of
        Inl e \<Rightarrow> Inl e
      | Inr (v, rest) \<Rightarrow>
          if v < 2 ^ target_width then Inr (v, rest) else Inl TruncatedStream)"

text \<open>
  Modelled from the spec: \<open>decode_chunk_header(cursor) -> (tag, length)\<close>
  (missing: the library's chunk reader): "tag is a varint; length is a varint giving
  payload byte count".  Every chunk carries its length here; the licence to derive a
  scalar's length from its kind is not used.
\<close>

definition decode_chunk_header :: "byte list \<Rightarrow> error + (nat \<times> nat \<times> byte list)" where
  "decode_chunk_header bs =
     (case decode_varint bs of
        Inl e \<Rightarrow> Inl e
      | Inr (tag, bs1) \<Rightarrow>
          (case decode_varint bs1 of
             Inl e \<Rightarrow> Inl e
           | Inr (len, bs2) \<Rightarrow> Inr (tag, len, bs2)))"

text \<open>
  Modelled from the spec: \<open>encode_chunk_header(tag, length, sink)\<close> (missing:
  the library's chunk writer), the inverse of \<open>decode_chunk_header\<close>.
\<close>

definition encode_chunk_header :: "nat \<Rightarrow> nat \<Rightarrow> byte list" where
  "encode_chunk_header tag len = encode_varint tag @ encode_varint len"

text \<open>
  Modelled from the spec: "the terminator chunk (tag 0, zero length)" that the
  writer emits last (missing: the library's struct writer).
\<close>

definition terminator :: "byte list" where
  "terminator = encode_chunk_header 0 0"

lemma decode_digits_length:
  "decode_digits bs = Inr (v, rest) \<Longrightarrow> length rest < length bs"
proof (induction bs arbitrary: v rest)
  case Nil
  then show ?case by simp
next
  case (Cons b bs)
  then show ?case
    by (fastforce split: if_splits sum.splits)
qed

lemma decode_varint_length:
  "decode_varint bs = Inr (v, rest) \<Longrightarrow> length rest < length bs"
  by (auto simp add: decode_varint_def split: sum.splits if_splits
      dest: decode_digits_length)

lemma read_block_length:
  "read_block n bs = Inr (p, rest) \<Longrightarrow> length p \<le> length bs \<and> length rest \<le> length bs"
  by (auto simp add: read_block_def split: if_splits)

lemma decode_chunk_header_length:
  "decode_chunk_header bs = Inr (tag, len, rest) \<Longrightarrow> length rest < length bs"
  by (fastforce simp add: decode_chunk_header_def split: sum.splits
      dest: decode_varint_length)

subsection \<open>Records and trait descriptors\<close>

text \<open>
  Modelled from the spec: the values a field can hold, one constructor per field
  kind of section 3 (missing: the generated \<open>rpg\<close> structs).  Integers are the
  unsigned values the varint carries; a floating point value is its block of raw
  bytes; a record is the list of its fields, tag and value, in the order of its
  descriptor.
\<close>

datatype fvalue =
    VBool bool
  | VInt nat
  | VFloat "byte list"
  | VString "byte list"
  | VRecord "(nat \<times> fvalue) list"
  | VList "(nat \<times> fvalue) list list"
  | VArray "nat list"
  | VBits "bool list"

type_synonym rec = "(nat \<times> fvalue) list"

text \<open>
  Modelled from the spec: the field kinds of section 3 (missing: the trait tables of
  \<open>reader_struct_impl.h\<close>).  A nested or repeated kind carries the descriptor of
  its child record type; an array and a bit array carry their fixed size.  A
  descriptor is "an ordered list of (tag, field-kind, default-value) tuples".
\<close>

datatype fkind =
    KBool
  | KInt
  | KFloat
  | KString
  | KNested "(nat \<times> fkind \<times> fvalue) list"
  | KRepeated "(nat \<times> fkind \<times> fvalue) list"
  | KArray nat
  | KBits nat

type_synonym descr = "(nat \<times> fkind \<times> fvalue) list"

text \<open>
  Modelled from the spec: the "fixed width implied by field kind" of a floating
  point scalar (missing: the library's primitive readers), taken as eight bytes.
\<close>

definition float_width :: nat where
  "float_width = 8"

text \<open>
  Modelled from the spec: "records are constructed empty (all fields default)
  immediately before a parse begins" (missing: the struct constructors).
\<close>

definition default_record :: "descr \<Rightarrow> rec" where
  "default_record d = map (\<lambda>(t, k, dv). (t, dv)) d"

text \<open>
  Modelled from the spec: populating one field, "mutated field-by-field exclusively
  by the Generic Record Reader" (missing: the field accessors of the trait tables).
\<close>

definition set_field :: "nat \<Rightarrow> fvalue \<Rightarrow> rec \<Rightarrow> rec" where
  "set_field t v r = map (\<lambda>(t', v'). if t' = t then (t', v) else (t', v')) r"

text \<open>
  Modelled from the spec: reading one field of a record for the writer (missing: the
  field accessors); a field the record does not list counts as default.
\<close>

definition field_value :: "rec \<Rightarrow> nat \<Rightarrow> fvalue \<Rightarrow> fvalue" where
  "field_value r t dv = (case map_of r t of None \<Rightarrow> dv | Some v \<Rightarrow> v)"

subsection \<open>Scalar payloads\<close>

text \<open>
  Modelled from the spec: "bit-packed boolean array" (missing: the library's flag
  reader and writer): eight flags to a byte, the first flag in the lowest bit.
\<close>

fun pack_byte :: "bool list \<Rightarrow> nat" where
  "pack_byte [] = 0"
| "pack_byte (b # bs) = (if b then 1 else 0) + 2 * pack_byte bs"

text \<open>
  Modelled from the spec: the inverse of \<open>pack_byte\<close> for the first \<open>k\<close>
  flags of a byte (missing: the library's flag reader).
\<close>

fun unpack_byte :: "nat \<Rightarrow> nat \<Rightarrow> bool list" where
  "unpack_byte 0 w = []"
| "unpack_byte (Suc k) w = odd w # unpack_byte k (w div 2)"

text \<open>
  Modelled from the spec: the payload of a bit-packed boolean array (missing: the
  library's flag writer).
\<close>

function pack_bits :: "bool list \<Rightarrow> byte list" where
  "pack_bits bs =
     (if bs = [] then [] else of_nat (pack_byte (take 8 bs)) # pack_bits (drop 8 bs))"
  by pat_completeness auto
termination
  by (relation "measure length") auto

declare pack_bits.simps [simp del]

text \<open>
  Modelled from the spec: reading \<open>n\<close> flags back from the payload of a
  bit-packed boolean array (missing: the library's flag reader).
\<close>

fun unpack_bits :: "nat \<Rightarrow> byte list \<Rightarrow> bool list" where
  "unpack_bits n [] = []"
| "unpack_bits n (w # ws) = unpack_byte (min n 8) (unat w) @ unpack_bits (n - 8) ws"

text \<open>
  Modelled from the spec: the payload of a "fixed-size array of scalars" (missing:
  the library's array reader), one varint after the other until the payload ends.
\<close>

function decode_varints :: "byte list \<Rightarrow> error + nat list" where
  "decode_varints bs =
     (if bs = [] then Inr []
      else (case decode_varint bs of
              Inl e \<Rightarrow> Inl e
            | Inr (v, rest) \<Rightarrow>
                (case decode_varints rest of
                   Inl e \<Rightarrow> Inl e
                 | Inr vs \<Rightarrow> Inr (v # vs))))"
  by pat_completeness auto
termination
  by (relation "measure length") (auto dest: decode_varint_length)

declare decode_varints.simps [simp del]

text \<open>
  Modelled from the spec: "scalar kinds: decode exactly length bytes into the
  field" (missing: the library's primitive readers): the payload is one varint and
  nothing else; bytes left over make the declared length inconsistent.
\<close>

definition decode_scalar :: "byte list \<Rightarrow> error + nat" where
  "decode_scalar p =
     (case decode_varint p of
        Inl e \<Rightarrow> Inl e
      | Inr (v, rest) \<Rightarrow> if rest = [] then Inr v else Inl MalformedChunk)"

subsection \<open>Generic record reader\<close>

text \<open>
  Modelled from the spec: the algorithm of section 4.3 (missing:
  \<open>Struct::ReadLcf\<close> and the field readers of \<open>reader_struct_impl.h\<close>).
  \<open>read_fields\<close> is the loop: "decode one chunk header; if tag is the terminator
  (0), stop successfully; else look up the tag in the record type's trait
  descriptor.  If absent, skip length payload bytes and continue.  If present,
  dispatch by field kind"; it "fails with MalformedChunk if a chunk's declared length
  exceeds remaining stream bytes", and only then takes the payload from the stream;
  a field that appears again is overwritten.
  \<open>decode_payload\<close> is the dispatch: a nested record recurses "with the payload
  sub-stream and the child record type"; a repeated record is read by
  \<open>read_elems\<close> as "a sequence of length-prefixed sub-chunk-streams, each decoded
  independently".  The first error ends the whole call chain.
\<close>

function read_fields :: "descr \<Rightarrow> rec \<Rightarrow> byte list \<Rightarrow> error + (rec \<times> byte list)"
  and decode_payload :: "fkind \<Rightarrow> byte list \<Rightarrow> error + fvalue"
  and read_elems :: "descr \<Rightarrow> byte list \<Rightarrow> error + rec list"
where
  "read_fields d r bs =
     (case decode_chunk_header bs of
        Inl e \<Rightarrow> Inl e
      | Inr (tag, len, rest) \<Rightarrow>
          if tag = 0 then Inr (r, rest)
          else if length rest < len then Inl MalformedChunk
          else (case read_block len rest of
                  Inl e \<Rightarrow> Inl e
                | Inr (payload, rest') \<Rightarrow>
                    (case map_of d tag of
                       None \<Rightarrow> read_fields d r rest'
                     | Some (k, dv) \<Rightarrow>
                         (case decode_payload k payload of
                            Inl e \<Rightarrow> Inl e
                          | Inr v \<Rightarrow> read_fields d (set_field tag v r) rest'))))"
| "decode_payload KBool p =
     (case decode_scalar p of Inl e \<Rightarrow> Inl e | Inr v \<Rightarrow> Inr (VBool (v \<noteq> 0)))"
| "decode_payload KInt p =
     (case decode_scalar p of Inl e \<Rightarrow> Inl e | Inr v \<Rightarrow> Inr (VInt v))"
| "decode_payload KFloat p =
     (if length p = float_width then Inr (VFloat p) else Inl MalformedChunk)"
| "decode_payload KString p = Inr (VString p)"
| "decode_payload (KNested d) p =
     (case read_fields d (default_record d) p of
        Inl e \<Rightarrow> Inl e
      | Inr (r, rest) \<Rightarrow> Inr (VRecord r))"
| "decode_payload (KRepeated d) p =
     (case read_elems d p of Inl e \<Rightarrow> Inl e | Inr rs \<Rightarrow> Inr (VList rs))"
| "decode_payload (KArray n) p =
     (case decode_varints p of
        Inl e \<Rightarrow> Inl e
      | Inr vs \<Rightarrow> if length vs = n then Inr (VArray vs) else Inl MalformedChunk)"
| "decode_payload (KBits n) p =
     (if length p = (n + 7) div 8 then Inr (VBits (unpack_bits n p)) else Inl MalformedChunk)"
| "read_elems d bs =
     (if bs = [] then Inr []
      else (case decode_varint bs of
              Inl e \<Rightarrow> Inl e
            | Inr (len, rest) \<Rightarrow>
                if length rest < len then Inl MalformedChunk
                else (case read_block len rest of
                        Inl e \<Rightarrow> Inl e
                      | Inr (elem, rest') \<Rightarrow>
                          (case read_fields d (default_record d) elem of
                             Inl e \<Rightarrow> Inl e
                           | Inr (r, unread) \<Rightarrow>
                               (case read_elems d rest' of
                                  Inl e \<Rightarrow> Inl e
                                | Inr rs \<Rightarrow> Inr (r # rs))))))"
  by pat_completeness auto
termination
  apply (relation "measure (\<lambda>x. case x of
      Inl (d, r, bs) \<Rightarrow> 2 * length bs
    | Inr (Inl (k, p)) \<Rightarrow> 2 * length p + 1
    | Inr (Inr (d, bs)) \<Rightarrow> 2 * length bs)")
  apply (auto dest!: decode_chunk_header_length decode_varint_length read_block_length)
  done

declare read_fields.simps [simp del] read_elems.simps [simp del]

text \<open>
  Modelled from the spec: \<open>read_record(cursor, record_type) -> Record\<close> (missing:
  \<open>Struct::ReadLcf\<close>): the loop started on the all-default record.  The bytes
  after the terminator are returned with the record, as the position of the cursor.
\<close>

definition read_record :: "descr \<Rightarrow> byte list \<Rightarrow> error + (rec \<times> byte list)" where
  "read_record d bs = read_fields d (default_record d) bs"

subsection \<open>Generic record writer\<close>

text \<open>
  Modelled from the spec: the algorithm of section 4.4 (missing:
  \<open>Struct::WriteLcf\<close> and the field writers).  \<open>write_fields\<close> iterates "the
  trait descriptor's fields" in order and, "for each field whose current value
  differs from its declared default", emits "the chunk header (tag, computed length)
  followed by the encoded payload"; \<open>encode_payload\<close> writes scalars through the
  primitive codec and "nested records and each element of a repeated field via
  recursive write_record into a temporary buffer whose length is then known and
  written first".  A value of the wrong shape for its kind has no payload.
\<close>

fun encode_payload :: "fkind \<Rightarrow> fvalue \<Rightarrow> byte list"
  and write_fields :: "descr \<Rightarrow> rec \<Rightarrow> byte list"
where
  "encode_payload KBool v =
     (case v of VBool b \<Rightarrow> encode_varint (if b then 1 else 0) | _ \<Rightarrow> [])"
| "encode_payload KInt v = (case v of VInt n \<Rightarrow> encode_varint n | _ \<Rightarrow> [])"
| "encode_payload KFloat v = (case v of VFloat bs \<Rightarrow> bs | _ \<Rightarrow> [])"
| "encode_payload KString v = (case v of VString bs \<Rightarrow> bs | _ \<Rightarrow> [])"
| "encode_payload (KNested d) v =
     (case v of VRecord r \<Rightarrow> write_fields d r @ terminator | _ \<Rightarrow> [])"
| "encode_payload (KRepeated d) v =
     (case v of
        VList rs \<Rightarrow>
          concat (map (\<lambda>r. let b = write_fields d r @ terminator
                            in encode_varint (length b) @ b) rs)
      | _ \<Rightarrow> [])"
| "encode_payload (KArray n) v =
     (case v of VArray xs \<Rightarrow> concat (map encode_varint xs) | _ \<Rightarrow> [])"
| "encode_payload (KBits n) v = (case v of VBits bs \<Rightarrow> pack_bits bs | _ \<Rightarrow> [])"
| "write_fields [] r = []"
| "write_fields ((t, k, dv) # fs) r =
     (let v = field_value r t dv
      in if v = dv then []
         else (let p = encode_payload k v in encode_chunk_header t (length p) @ p))
     @ write_fields fs r"

text \<open>
  Modelled from the spec: \<open>write_record(record, record_type, sink)\<close> (missing:
  \<open>Struct::WriteLcf\<close>): the fields, then the terminator.  The sink is the list of
  bytes written.
\<close>

definition write_record :: "descr \<Rightarrow> rec \<Rightarrow> byte list" where
  "write_record d r = write_fields d r @ terminator"

subsection \<open>Well-formed descriptors and records\<close>

text \<open>
  Modelled from the spec: a value that is of a field's kind and that the codec can
  carry (missing: the C++ types of the generated structs, which make this hold by
  construction): an integer fits the target width, a floating point value has its
  fixed width, an array and a bit array have their declared size, a nested record
  lists the fields of its descriptor, and every payload and every element of a
  repeated field is short enough for its length to be written as a varint.  A field
  left at its default is never written and needs nothing.
\<close>

fun has_kind :: "fkind \<Rightarrow> fvalue \<Rightarrow> bool"
  and typed_fields :: "descr \<Rightarrow> rec \<Rightarrow> bool"
where
  "has_kind KBool v = (case v of VBool b \<Rightarrow> True | _ \<Rightarrow> False)"
| "has_kind KInt v = (case v of VInt n \<Rightarrow> n < 2 ^ target_width | _ \<Rightarrow> False)"
| "has_kind KFloat v = (case v of VFloat bs \<Rightarrow> length bs = float_width | _ \<Rightarrow> False)"
| "has_kind KString v = (case v of VString bs \<Rightarrow> True | _ \<Rightarrow> False)"
| "has_kind (KNested d) v =
     (case v of VRecord r \<Rightarrow> map fst r = map fst d \<and> typed_fields d r | _ \<Rightarrow> False)"
| "has_kind (KRepeated d) v =
     (case v of
        VList rs \<Rightarrow>
          list_all (\<lambda>r. map fst r = map fst d \<and> typed_fields d r \<and>
                         length (write_fields d r @ terminator) < 2 ^ target_width) rs
      | _ \<Rightarrow> False)"
| "has_kind (KArray n) v =
     (case v of VArray xs \<Rightarrow> length xs = n \<and> list_all (\<lambda>x. x < 2 ^ target_width) xs
      | _ \<Rightarrow> False)"
| "has_kind (KBits n) v = (case v of VBits bs \<Rightarrow> length bs = n | _ \<Rightarrow> False)"
| "typed_fields [] r = True"
| "typed_fields ((t, k, dv) # fs) r =
     ((let v = field_value r t dv
       in if v = dv then True
          else has_kind k v \<and> length (encode_payload k v) < 2 ^ target_width)
      \<and> typed_fields fs r)"

text \<open>
  Modelled from the spec: a record value of the record type a descriptor describes
  (missing: the generated structs): it lists exactly the descriptor's fields, in
  order, with values of their kinds.
\<close>

definition conforms :: "descr \<Rightarrow> rec \<Rightarrow> bool" where
  "conforms d r = (map fst r = map fst d \<and> typed_fields d r)"

text \<open>
  Modelled from the spec: the invariants of a descriptor (missing: the trait
  tables): "within one record, tag values are unique", "tag 0 is reserved as a record
  terminator", and a tag is an unsigned integer that a varint can carry; the same
  holds for the descriptors of child record types.
\<close>

fun wf_kind :: "fkind \<Rightarrow> bool"
  and wf_fields :: "descr \<Rightarrow> bool"
where
  "wf_kind (KNested d) = (distinct (map fst d) \<and> wf_fields d)"
| "wf_kind (KRepeated d) = (distinct (map fst d) \<and> wf_fields d)"
| "wf_kind KBool = True"
| "wf_kind KInt = True"
| "wf_kind KFloat = True"
| "wf_kind KString = True"
| "wf_kind (KArray n) = True"
| "wf_kind (KBits n) = True"
| "wf_fields [] = True"
| "wf_fields ((t, k, dv) # fs) =
     (0 < t \<and> t < 2 ^ target_width \<and> wf_kind k \<and> wf_fields fs)"

text \<open>
  Modelled from the spec: a well-formed descriptor of a top-level record type
  (missing: the trait tables): unique tags, and well-formed fields.
\<close>

definition wf_descr :: "descr \<Rightarrow> bool" where
  "wf_descr d = (distinct (map fst d) \<and> wf_fields d)"

subsection \<open>Positions in a chunk stream\<close>

text \<open>
  Modelled from the spec: the state of the loop of section 4.3 after it has
  consumed \<open>n\<close> chunks, none of them the terminator: the record as populated so
  far and the bytes still to be read; \<open>None\<close> when the loop does not get that far
  (missing: \<open>Struct::ReadLcf\<close>).  It says where in a stream a chunk stands.
\<close>

fun after_chunks :: "nat \<Rightarrow> descr \<Rightarrow> rec \<Rightarrow> byte list \<Rightarrow> (rec \<times> byte list) option" where
  "after_chunks 0 d r bs = Some (r, bs)"
| "after_chunks (Suc n) d r bs =
     (case decode_chunk_header bs of
        Inl e \<Rightarrow> None
      | Inr (tag, len, rest) \<Rightarrow>
          if tag = 0 \<or> length rest < len then None
          else (case map_of d tag of
                  None \<Rightarrow> after_chunks n d r (drop len rest)
                | Some (k, dv) \<Rightarrow>
                    (case decode_payload k (take len rest) of
                       Inl e \<Rightarrow> None
                     | Inr v \<Rightarrow> after_chunks n d (set_field tag v r) (drop len rest))))"

text \<open>
  Modelled from the spec: "a chunk whose declared length exceeds the bytes
  remaining", at a place the reader of section 4.3 gets to (missing:
  \<open>Struct::ReadLcf\<close>).  \<open>overlong d bs\<close>: reading a record of type \<open>d\<close>
  from \<open>bs\<close>, the reader meets such a chunk: the chunk it stands at has a header
  that decodes, a tag other than 0 and a length larger than what is left after the
  header (\<open>here\<close>); or that chunk is well delimited and the overlong one is inside
  its payload (\<open>inside\<close>), or comes after it (\<open>after_unknown\<close>,
  \<open>after_known\<close>).  Inside a payload the reader descends into a nested record and
  into the elements of a repeated record, where the length prefix of an element may
  itself be larger than what is left (\<open>elem_here\<close>).
\<close>

inductive overlong :: "descr \<Rightarrow> byte list \<Rightarrow> bool"
  and overlong_payload :: "fkind \<Rightarrow> byte list \<Rightarrow> bool"
  and overlong_elems :: "descr \<Rightarrow> byte list \<Rightarrow> bool"
where
  here:
    "decode_chunk_header bs = Inr (tag, len, body) \<Longrightarrow> tag \<noteq> 0 \<Longrightarrow> length body < len
       \<Longrightarrow> overlong d bs"
| inside:
    "decode_chunk_header bs = Inr (tag, len, body) \<Longrightarrow> tag \<noteq> 0 \<Longrightarrow> len \<le> length body
       \<Longrightarrow> map_of d tag = Some (k, dv) \<Longrightarrow> overlong_payload k (take len body)
       \<Longrightarrow> overlong d bs"
| after_unknown:
    "decode_chunk_header bs = Inr (tag, len, body) \<Longrightarrow> tag \<noteq> 0 \<Longrightarrow> len \<le> length body
       \<Longrightarrow> map_of d tag = None \<Longrightarrow> overlong d (drop len body)
       \<Longrightarrow> overlong d bs"
| after_known:
    "decode_chunk_header bs = Inr (tag, len, body) \<Longrightarrow> tag \<noteq> 0 \<Longrightarrow> len \<le> length body
       \<Longrightarrow> map_of d tag = Some (k, dv) \<Longrightarrow> decode_payload k (take len body) = Inr v
       \<Longrightarrow> overlong d (drop len body)
       \<Longrightarrow> overlong d bs"
| nested:
    "overlong d p \<Longrightarrow> overlong_payload (KNested d) p"
| repeated:
    "overlong_elems d p \<Longrightarrow> overlong_payload (KRepeated d) p"
| elem_here:
    "decode_varint bs = Inr (len, rest) \<Longrightarrow> length rest < len \<Longrightarrow> overlong_elems d bs"
| elem_inside:
    "decode_varint bs = Inr (len, rest) \<Longrightarrow> len \<le> length rest
       \<Longrightarrow> overlong d (take len rest)
       \<Longrightarrow> overlong_elems d bs"
| elem_after:
    "decode_varint bs = Inr (len, rest) \<Longrightarrow> len \<le> length rest
       \<Longrightarrow> read_fields d (default_record d) (take len rest) = Inr (r, unread)
       \<Longrightarrow> overlong_elems d (drop len rest)
       \<Longrightarrow> overlong_elems d bs"

code_pred overlong .

text \<open>
  Modelled from the spec: what the reader of section 4.3 leaves in a record \<open>cur\<close> after the chunks that the writer emits
  for the fields \<open>fs\<close> of \<open>r\<close>: the fields that differ from their default,
  stored one after the other (missing: \<open>Struct::ReadLcf\<close>).
\<close>

fun store :: "descr \<Rightarrow> rec \<Rightarrow> rec \<Rightarrow> rec" where
  "store [] r cur = cur"
| "store ((t, k, dv) # fs) r cur =
     store fs r (let v = field_value r t dv in if v = dv then cur else set_field t v cur)"

subsection \<open>A sample record type\<close>

text \<open>A descriptor with one field of every kind, and a record of that type.\<close>

definition sample_descr :: descr where
  "sample_descr =
     [(1, KInt, VInt 0),
      (2, KString, VString []),
      (3, KBool, VBool False),
      (4, KNested [(1, KInt, VInt 0)], VRecord [(1, VInt 0)]),
      (5, KRepeated [(1, KInt, VInt 0)], VList []),
      (6, KArray 2, VArray [0, 0]),
      (7, KBits 3, VBits [False, False, False]),
      (8, KFloat, VFloat [0, 0, 0, 0, 0, 0, 0, 0])]"

definition sample_record :: rec where
  "sample_record =
     [(1, VInt 300),
      (2, VString [0x41, 0x42]),
      (3, VBool True),
      (4, VRecord [(1, VInt 5)]),
      (5, VList [[(1, VInt 7)], [(1, VInt 0)]]),
      (6, VArray [1, 200]),
      (7, VBits [True, False, True]),
      (8, VFloat [0, 0, 0, 0, 0, 0, 0, 0])]"

definition small_descr :: descr where
  "small_descr = [(1, KInt, VInt 0), (2, KString, VString [])]"

section \<open>Properties of the Python module\<close>

subsection \<open>Auxiliary facts\<close>

lemma calls_log [simp]: "calls (log e w) = calls w @ [e]"
  by (simp add: log_def)

lemma parsed_encoding_log [simp]: "parsed_encoding (log e w) = parsed_encoding w"
  by (simp add: log_def)

lemma sjis_not_ascii: "\<not> StringIsAscii sjis_name"
  by (simp add: StringIsAscii_def sjis_name_def)

lemma ascii_System: "StringIsAscii ''System''"
  by (simp add: StringIsAscii_def)

lemma heuristic_calls: "calls (snd (heuristic E path d enc w)) = calls w @ [DetectEncodings]"
  by (simp add: heuristic_def Let_def split: option.splits list.splits)

lemma heuristic_fst_indep: "fst (heuristic E path d enc w) = fst (heuristic E path d enc w')"
  by (simp add: heuristic_def Let_def split: option.splits list.splits)

lemma detect_and_reparse_Some:
  "detect_and_reparse E path (Some d) enc w =
     (Inr (LDB_Load E path (fst (heuristic E path d enc w))),
      log (Load LDB path (fst (heuristic E path d enc w))) (snd (heuristic E path d enc w)))"
  by (simp add: detect_and_reparse_def split_beta)

lemma digit_chars:
  "char_of (48::nat) = CHR ''0''" "char_of (49::nat) = CHR ''1''" "char_of (50::nat) = CHR ''2''"
  "char_of (51::nat) = CHR ''3''" "char_of (52::nat) = CHR ''4''" "char_of (53::nat) = CHR ''5''"
  "char_of (54::nat) = CHR ''6''" "char_of (55::nat) = CHR ''7''" "char_of (56::nat) = CHR ''8''"
  "char_of (57::nat) = CHR ''9''"
  by code_simp+

lemma char_of_48: "char_of (48::nat) = CHR ''0''"
  by (rule digit_chars)

lemma decimal_10000: "decimal 10000 = ''10000''"
  by (simp add: decimal.simps digit_chars)

lemma decimal_1: "decimal (Suc 0) = ''1''"
  by (simp add: decimal.simps digit_chars)

lemma decimal_lt10: "n < 10 \<Longrightarrow> decimal n = [char_of (48 + n)]"
  by (subst decimal.simps) simp

lemma decimal_ge10: "10 \<le> n \<Longrightarrow> decimal n = decimal (n div 10) @ [char_of (48 + n mod 10)]"
  by (subst decimal.simps) simp

lemma length_decimal_pos: "0 < length (decimal n)"
  by (subst decimal.simps) simp

lemma length_decimal_10: "10 \<le> n \<Longrightarrow> length (decimal n) = Suc (length (decimal (n div 10)))"
  by (subst decimal.simps) simp

lemma length_decimal_ge:
  assumes "1000 \<le> n"
  shows "4 \<le> length (decimal n)"
proof -
  have a: "10 \<le> n" "10 \<le> n div 10" "10 \<le> n div 10 div 10"
    using assms by auto
  show ?thesis
    using length_decimal_10 [OF a(1)] length_decimal_10 [OF a(2)] length_decimal_10 [OF a(3)]
      length_decimal_pos [of "n div 10 div 10 div 10"] by linarith
qed

lemma decimal_2:
  assumes "10 \<le> k" "k < 100"
  shows "decimal k = [char_of (48 + k div 10 mod 10), char_of (48 + k mod 10)]"
proof -
  have "k div 10 < 10" using assms by auto
  then show ?thesis
    using decimal_ge10 [OF assms(1)] decimal_lt10 [of "k div 10"] by simp
qed

lemma decimal_3:
  assumes "100 \<le> k" "k < 1000"
  shows "decimal k = [char_of (48 + k div 100 mod 10), char_of (48 + k div 10 mod 10),
                      char_of (48 + k mod 10)]"
proof -
  have a: "10 \<le> k div 10" "k div 10 < 100" "10 \<le> k" using assms by auto
  have b: "k div 10 div 10 = k div 100" by (simp add: div_mult2_eq [symmetric])
  show ?thesis using decimal_ge10 [OF a(3)] decimal_2 [OF a(1) a(2)] b by simp
qed

lemma decimal_4:
  assumes "1000 \<le> k" "k < 10000"
  shows "decimal k = [char_of (48 + k div 1000 mod 10), char_of (48 + k div 100 mod 10),
                      char_of (48 + k div 10 mod 10), char_of (48 + k mod 10)]"
proof -
  have a: "100 \<le> k div 10" "k div 10 < 1000" "10 \<le> k" using assms by auto
  have b: "k div 10 div 10 = k div 100" "k div 10 div 100 = k div 1000"
    by (simp_all add: div_mult2_eq [symmetric])
  show ?thesis using decimal_ge10 [OF a(3)] decimal_3 [OF a(1) a(2)] b by simp
qed

lemma setw_four_digits:
  assumes k: "k < 10000"
  shows "setw_setfill 4 (CHR ''0'') (decimal k) = four_digits k"
proof -
  consider "k < 10" | "10 \<le> k" "k < 100" | "100 \<le> k" "k < 1000" | "1000 \<le> k" "k < 10000"
    using k by linarith
  then show ?thesis
  proof cases
    case 1
    then show ?thesis
      by (simp add: decimal_lt10 setw_setfill_def four_digits_def char_of_48 numeral_3_eq_3)
  next
    case 2
    then show ?thesis
      by (simp add: decimal_2 setw_setfill_def four_digits_def char_of_48 numeral_2_eq_2)
  next
    case 3
    then show ?thesis
      by (simp add: decimal_3 setw_setfill_def four_digits_def char_of_48)
  next
    case 4
    then show ?thesis
      by (simp add: decimal_4 setw_setfill_def four_digits_def char_of_48)
  qed
qed

lemma setw_wide: "1000 \<le> k \<Longrightarrow> setw_setfill 4 c (decimal k) = decimal k"
  using length_decimal_ge [of k] by (simp add: setw_setfill_def)

lemma heuristic_first_candidate:
  "DetectEncodings_of E d = c # cs \<Longrightarrow> probe E path d (c # cs) = None \<Longrightarrow>
     heuristic E path d [] w = (c, (log DetectEncodings w)\<lparr>parsed_encoding := c\<rparr>)"
  by (simp add: heuristic_def Let_def del: probe.simps)

lemma heuristic_locale:
  "DetectEncodings_of E d = [] \<Longrightarrow>
     heuristic E path d [] w = (GetLocaleEncoding E, log DetectEncodings w)"
  by (simp add: heuristic_def Let_def)

lemma read_ldb_first_candidate:
  assumes "LDB_Load E path [] = Some d" and "DetectEncodings_of E d = c # cs"
    and "probe E path d (c # cs) = None"
  shows "read_ldb E path [] w =
     (Inr (LDB_Load E path c),
      w\<lparr>parsed_encoding := c,
        calls := calls w @ [Load LDB path [], DetectEncodings, Load LDB path c]\<rparr>)"
  using assms
  by (simp add: read_ldb_def Let_def detect_and_reparse_def heuristic_first_candidate log_def)

lemma read_ldb_locale:
  assumes "LDB_Load E path [] = Some d" and "DetectEncodings_of E d = []"
  shows "read_ldb E path [] w =
     (Inr (LDB_Load E path (GetLocaleEncoding E)),
      w\<lparr>calls := calls w @ [Load LDB path [], DetectEncodings,
                              Load LDB path (GetLocaleEncoding E)]\<rparr>)"
  using assms
  by (simp add: read_ldb_def Let_def detect_and_reparse_def heuristic_locale log_def)

lemma read_lcf_first_candidate:
  assumes "read_header (file_bytes E (resolve_path p)) = signature LDB"
    and "enc = [] \<or> enc = ''auto''" and "parsed_encoding w = []"
    and "LDB_Load E (resolve_path p) [] = Some d" and "DetectEncodings_of E d = c # cs"
    and "probe E (resolve_path p) d (c # cs) = None"
  shows "read_lcf E p enc w =
     (Inr (ObjDatabase (LDB_Load E (resolve_path p) c)),
      w\<lparr>parsed_encoding := c,
        calls := calls w @ [Load LDB (resolve_path p) [], DetectEncodings,
                            Load LDB (resolve_path p) c]\<rparr>)"
  using assms
  by (auto simp add: read_lcf_def Let_def detect_and_reparse_def heuristic_first_candidate log_def)

lemma read_lcf_locale:
  assumes "read_header (file_bytes E (resolve_path p)) = signature LDB"
    and "enc = [] \<or> enc = ''auto''" and "parsed_encoding w = []"
    and "LDB_Load E (resolve_path p) [] = Some d" and "DetectEncodings_of E d = []"
  shows "read_lcf E p enc w =
     (Inr (ObjDatabase (LDB_Load E (resolve_path p) (GetLocaleEncoding E))),
      w\<lparr>calls := calls w @ [Load LDB (resolve_path p) [], DetectEncodings,
                              Load LDB (resolve_path p) (GetLocaleEncoding E)]\<rparr>)"
  using assms
  by (auto simp add: read_lcf_def Let_def detect_and_reparse_def heuristic_locale log_def)

subsection \<open>C1: what a successful hint probe resolves to\<close>

text \<open>
  C1 says that after a successful probe of the hint file the encoding used for the
  second parse, and stored, is the candidate's identifier.  Evaluated on a database
  whose system name is not ASCII, with candidates \<open>ibm-943_P15A-2003\<close> and
  \<open>windows-1252\<close> and the recoded name of the first one present under
  \<open>System/\<close>, \<open>read_ldb\<close> reparses with, and stores, the path of the hint
  file: the loop assigns \<open>system_path.string()\<close> where the candidate was meant.
\<close>

theorem read_ldb_probe_hit_stores_path:
  "read_ldb (fixture_env [''ibm-943_P15A-2003'', ''windows-1252''] sjis_name
               [''/game/System/name-in-ibm-943_P15A-2003'']) ''RPG_RT.ldb'' [] w0
   = (Inr (Some (fixture_db sjis_name)),
      \<lparr>parsed_encoding = ''/game/System/name-in-ibm-943_P15A-2003'',
       calls = [Load LDB ''RPG_RT.ldb'' [], DetectEncodings,
                Load LDB ''RPG_RT.ldb'' ''/game/System/name-in-ibm-943_P15A-2003'']\<rparr>)"
  by (simp add: read_ldb_def detect_and_reparse_def heuristic_def fixture_env_def w0_def
      sjis_not_ascii log_def Let_def fixture_db_def)

subsection \<open>C2: when detection runs\<close>

text \<open>
  C2 as stated (an empty or \<open>auto\<close> parameter always triggers detection on a
  database, whatever is cached) fails for \<open>read_lcf\<close>: with \<open>shift_jis\<close>
  cached, the database is parsed once with \<open>shift_jis\<close> and
  \<open>DetectEncodings\<close> is never called.
\<close>

theorem read_lcf_cached_skips_detection:
  "read_lcf (fixture_env [''windows-1252''] ''System'' []) (Path ''RPG_RT.ldb'') []
       \<lparr>parsed_encoding = ''shift_jis'', calls = []\<rparr>
   = (Inr (ObjDatabase (Some (fixture_db ''System''))),
      \<lparr>parsed_encoding = ''shift_jis'', calls = [Load LDB ''RPG_RT.ldb'' ''shift_jis'']\<rparr>)"
  by (simp add: read_lcf_def read_header_def fixture_env_def log_def Let_def fixture_db_def)

text \<open>
  C2, amended.  With an empty or \<open>auto\<close> parameter: \<open>read_ldb\<close>, whenever
  its first parse yields a database, calls \<open>DetectEncodings\<close> and parses a second
  time with the encoding the heuristic resolves, whatever the cached encoding is;
  \<open>read_lcf\<close> on a database file first replaces the parameter by the cached
  encoding, and does the same only when that is itself empty or \<open>auto\<close>,
  otherwise it parses once with the cached encoding.
\<close>

theorem detection_when_requested:
  assumes "enc = [] \<or> enc = ''auto''"
  shows "(LDB_Load E path enc = Some d \<longrightarrow>
            fst (read_ldb E path enc w) = Inr (LDB_Load E path (fst (heuristic E path d enc w))) \<and>
            calls (snd (read_ldb E path enc w)) =
              calls w @ [Load LDB path enc, DetectEncodings,
                         Load LDB path (fst (heuristic E path d enc w))]) \<and>
         (read_header (file_bytes E (resolve_path p)) = signature LDB \<longrightarrow>
            (let pe = parsed_encoding w; f = resolve_path p in
             if pe = [] \<or> pe = ''auto'' then
               (LDB_Load E f pe = Some d \<longrightarrow>
                  fst (read_lcf E p enc w) =
                    Inr (ObjDatabase (LDB_Load E f (fst (heuristic E f d pe w)))) \<and>
                  calls (snd (read_lcf E p enc w)) =
                    calls w @ [Load LDB f pe, DetectEncodings,
                               Load LDB f (fst (heuristic E f d pe w))])
             else read_lcf E p enc w = (Inr (ObjDatabase (LDB_Load E f pe)), log (Load LDB f pe) w)))"
proof (intro conjI impI)
  assume d: "LDB_Load E path enc = Some d"
  have r: "read_ldb E path enc w = detect_and_reparse E path (Some d) enc (log (Load LDB path enc) w)"
    using assms d by (auto simp add: read_ldb_def Let_def)
  show "fst (read_ldb E path enc w) = Inr (LDB_Load E path (fst (heuristic E path d enc w)))"
    using heuristic_fst_indep [of E path d enc w "log (Load LDB path enc) w"]
    by (simp add: r detect_and_reparse_Some)
  show "calls (snd (read_ldb E path enc w)) =
          calls w @ [Load LDB path enc, DetectEncodings,
                     Load LDB path (fst (heuristic E path d enc w))]"
    using heuristic_fst_indep [of E path d enc w "log (Load LDB path enc) w"]
    by (simp add: r detect_and_reparse_Some heuristic_calls)
next
  assume h: "read_header (file_bytes E (resolve_path p)) = signature LDB"
  define pe where "pe = parsed_encoding w"
  define f where "f = resolve_path p"
  have enc1: "(if enc = [] \<or> enc = ''auto'' then parsed_encoding w else enc) = pe"
    using assms by (auto simp add: pe_def)
  have hd: "read_header (file_bytes E f) = ''LcfDataBas''"
    using h by (simp add: f_def)
  have A: "LDB_Load E f pe = Some d \<Longrightarrow> pe = [] \<or> pe = ''auto'' \<Longrightarrow>
        fst (read_lcf E p enc w) = Inr (ObjDatabase (LDB_Load E f (fst (heuristic E f d pe w)))) \<and>
        calls (snd (read_lcf E p enc w)) =
          calls w @ [Load LDB f pe, DetectEncodings, Load LDB f (fst (heuristic E f d pe w))]"
    using heuristic_fst_indep [of E f d pe w "log (Load LDB f pe) w"]
    by (simp add: read_lcf_def Let_def enc1 hd f_def [symmetric] detect_and_reparse_Some
        heuristic_calls)
  have B: "\<not> (pe = [] \<or> pe = ''auto'') \<Longrightarrow>
        read_lcf E p enc w = (Inr (ObjDatabase (LDB_Load E f pe)), log (Load LDB f pe) w)"
    by (simp add: read_lcf_def Let_def enc1 hd f_def [symmetric])
  show "let pe = parsed_encoding w; f = resolve_path p in
          if pe = [] \<or> pe = ''auto'' then
            (LDB_Load E f pe = Some d \<longrightarrow>
               fst (read_lcf E p enc w) =
                 Inr (ObjDatabase (LDB_Load E f (fst (heuristic E f d pe w)))) \<and>
               calls (snd (read_lcf E p enc w)) =
                 calls w @ [Load LDB f pe, DetectEncodings,
                            Load LDB f (fst (heuristic E f d pe w))])
          else read_lcf E p enc w = (Inr (ObjDatabase (LDB_Load E f pe)), log (Load LDB f pe) w)"
    unfolding Let_def pe_def [symmetric] f_def [symmetric] using A B by presburger
qed

theorem detection_when_requested_witness:
  "calls (snd (read_ldb (fixture_env [''windows-1252''] ''System'' []) ''RPG_RT.ldb'' []
                 \<lparr>parsed_encoding = ''shift_jis'', calls = []\<rparr>))
     = [Load LDB ''RPG_RT.ldb'' [], DetectEncodings, Load LDB ''RPG_RT.ldb'' ''windows-1252''] \<and>
   read_lcf (fixture_env [''windows-1252''] ''System'' []) (Path ''RPG_RT.ldb'') ''auto''
       \<lparr>parsed_encoding = ''shift_jis'', calls = []\<rparr>
     = (Inr (ObjDatabase (Some (fixture_db ''System''))),
        \<lparr>parsed_encoding = ''shift_jis'', calls = [Load LDB ''RPG_RT.ldb'' ''shift_jis'']\<rparr>)"
  using detection_when_requested [of "[]" "fixture_env [''windows-1252''] ''System'' []"
      "''RPG_RT.ldb''" "fixture_db ''System''" "\<lparr>parsed_encoding = ''shift_jis'', calls = []\<rparr>"
      "Path ''RPG_RT.ldb''"]
    detection_when_requested [of "''auto''" "fixture_env [''windows-1252''] ''System'' []"
      "''RPG_RT.ldb''" "fixture_db ''System''" "\<lparr>parsed_encoding = ''shift_jis'', calls = []\<rparr>"
      "Path ''RPG_RT.ldb''"]
  by (simp add: fixture_env_def heuristic_def ascii_System fixture_db_def read_header_def
      log_def Let_def)

subsection \<open>C3: dispatch on the signature\<close>



subsection \<open>C4: the choice when the probe resolves nothing\<close>

text \<open>
  C4 says that when the probe resolves nothing and there are candidates, the first
  candidate is used for the second parse.  Evaluated with the parameter \<open>auto\<close>,
  an ASCII system name and the single candidate \<open>windows-1252\<close>,
  \<open>read_ldb\<close> enters the heuristic, calls the detector, and then reparses with
  \<open>auto\<close>: the tests that apply the detector's answer ask \<open>encoding.empty()\<close>
  only, and \<open>auto\<close> is not empty.  Nothing is stored either.
\<close>

theorem read_ldb_auto_keeps_auto:
  "read_ldb (fixture_env [''windows-1252''] ''System'' []) ''RPG_RT.ldb'' ''auto'' w0
   = (Inr (Some (fixture_db ''System'')),
      \<lparr>parsed_encoding = [],
       calls = [Load LDB ''RPG_RT.ldb'' ''auto'', DetectEncodings,
                Load LDB ''RPG_RT.ldb'' ''auto'']\<rparr>)"
  by (simp add: read_ldb_def detect_and_reparse_def heuristic_def fixture_env_def w0_def
      ascii_System log_def Let_def fixture_db_def)

subsection \<open>C8: the stored encoding and its reuse\<close>

text \<open>
  C8 as stated fails where detection falls back to the locale: with no candidates the
  second parse runs with the locale's encoding \<open>UTF-8\<close>, and the stored encoding
  stays empty.
\<close>

theorem read_ldb_locale_not_stored:
  "read_ldb (fixture_env [] ''System'' []) ''RPG_RT.ldb'' [] w0
   = (Inr (Some (fixture_db ''System'')),
      \<lparr>parsed_encoding = [],
       calls = [Load LDB ''RPG_RT.ldb'' [], DetectEncodings,
                Load LDB ''RPG_RT.ldb'' ''UTF-8'']\<rparr>)"
  by (simp add: read_ldb_def detect_and_reparse_def heuristic_def fixture_env_def w0_def
      ascii_System log_def Let_def fixture_db_def)

text \<open>
  C8, amended.  Take a database read that starts detection from an empty encoding
  (\<open>read_ldb\<close> with an empty parameter, or \<open>read_lcf\<close> on a database file with
  an empty or \<open>auto\<close> parameter and nothing stored) and whose first parse yields a
  database.  If the probe resolves nothing and there are candidates, it reparses with
  the first candidate and leaves that candidate in \<open>parsed_encoding\<close>; a
  \<open>read_lmt\<close> or \<open>read_lmu\<close> with an empty or \<open>auto\<close> parameter run on the
  state it leaves loads with that candidate, and a \<open>read_lcf\<close> behaves as if given
  it.  If there are no candidates, it reparses with the locale's encoding and leaves
  \<open>parsed_encoding\<close> as it was.  In any state, \<open>read_lmt\<close> and \<open>read_lmu\<close>
  with an empty or \<open>auto\<close> parameter load with the stored encoding as it is, and
  \<open>read_lcf\<close> behaves as if given the stored encoding when that is not empty;
  \<open>read_lmt\<close> and \<open>read_lmu\<close> call their loader and nothing else, and
  \<open>read_lcf\<close> on a file that is not a database never calls the detector.
\<close>

theorem stored_encoding_reuse:
  "(LDB_Load E path [] = Some d \<and> DetectEncodings_of E d = c # cs \<and>
      probe E path d (c # cs) = None \<longrightarrow>
      read_ldb E path [] w =
        (Inr (LDB_Load E path c),
         w\<lparr>parsed_encoding := c,
           calls := calls w @ [Load LDB path [], DetectEncodings, Load LDB path c]\<rparr>) \<and>
      (enc = [] \<or> enc = ''auto'' \<longrightarrow>
         read_lmt E q enc (snd (read_ldb E path [] w)) =
           (LMT_Load E q c, log (Load LMT q c) (snd (read_ldb E path [] w))) \<and>
         read_lmu E p enc (snd (read_ldb E path [] w)) =
           (LMU_Load E (resolve_path p) c,
            log (Load LMU (resolve_path p) c) (snd (read_ldb E path [] w))) \<and>
         (c \<noteq> [] \<longrightarrow>
            read_lcf E p enc (snd (read_ldb E path [] w)) =
              read_lcf E p c (snd (read_ldb E path [] w))))) \<and>
   (LDB_Load E path [] = Some d \<and> DetectEncodings_of E d = [] \<longrightarrow>
      read_ldb E path [] w =
        (Inr (LDB_Load E path (GetLocaleEncoding E)),
         w\<lparr>calls := calls w @ [Load LDB path [], DetectEncodings,
                                 Load LDB path (GetLocaleEncoding E)]\<rparr>)) \<and>
   (read_header (file_bytes E (resolve_path p)) = signature LDB \<and>
      (enc = [] \<or> enc = ''auto'') \<and> parsed_encoding w = [] \<and>
      LDB_Load E (resolve_path p) [] = Some d \<longrightarrow>
      (DetectEncodings_of E d = c # cs \<and> probe E (resolve_path p) d (c # cs) = None \<longrightarrow>
         read_lcf E p enc w =
           (Inr (ObjDatabase (LDB_Load E (resolve_path p) c)),
            w\<lparr>parsed_encoding := c,
              calls := calls w @ [Load LDB (resolve_path p) [], DetectEncodings,
                                  Load LDB (resolve_path p) c]\<rparr>)) \<and>
      (DetectEncodings_of E d = [] \<longrightarrow>
         read_lcf E p enc w =
           (Inr (ObjDatabase (LDB_Load E (resolve_path p) (GetLocaleEncoding E))),
            w\<lparr>calls := calls w @ [Load LDB (resolve_path p) [], DetectEncodings,
                                    Load LDB (resolve_path p) (GetLocaleEncoding E)]\<rparr>))) \<and>
   (enc = [] \<or> enc = ''auto'' \<longrightarrow>
      read_lmt E q enc w =
        (LMT_Load E q (parsed_encoding w), log (Load LMT q (parsed_encoding w)) w) \<and>
      read_lmu E p enc w =
        (LMU_Load E (resolve_path p) (parsed_encoding w),
         log (Load LMU (resolve_path p) (parsed_encoding w)) w) \<and>
      (parsed_encoding w \<noteq> [] \<longrightarrow>
         read_lcf E p enc w = read_lcf E p (parsed_encoding w) w)) \<and>
   calls (snd (read_lmt E q enc w)) =
     calls w @ [Load LMT q (if enc = [] \<or> enc = ''auto'' then parsed_encoding w else enc)] \<and>
   calls (snd (read_lmu E p enc w)) =
     calls w @ [Load LMU (resolve_path p)
                  (if enc = [] \<or> enc = ''auto'' then parsed_encoding w else enc)] \<and>
   (read_header (file_bytes E (resolve_path p)) \<noteq> signature LDB \<longrightarrow>
      DetectEncodings \<notin> set (drop (length (calls w)) (calls (snd (read_lcf E p enc w)))))"
proof -
  have lmt: "read_lmt E q enc v =
        (LMT_Load E q (parsed_encoding v), log (Load LMT q (parsed_encoding v)) v)"
    if "enc = [] \<or> enc = ''auto''" for v
    using that by (auto simp add: read_lmt_def Let_def)
  have lmu: "read_lmu E p enc v =
        (LMU_Load E (resolve_path p) (parsed_encoding v),
         log (Load LMU (resolve_path p) (parsed_encoding v)) v)"
    if "enc = [] \<or> enc = ''auto''" for v
    using that by (auto simp add: read_lmu_def Let_def)
  have lcf: "read_lcf E p enc v = read_lcf E p (parsed_encoding v) v"
    if "enc = [] \<or> enc = ''auto''" "parsed_encoding v \<noteq> []" for v
    using that by (auto simp add: read_lcf_def Let_def)
  show ?thesis
  proof (intro conjI impI)
    assume h: "LDB_Load E path [] = Some d \<and> DetectEncodings_of E d = c # cs \<and>
      probe E path d (c # cs) = None"
    then have r: "read_ldb E path [] w =
        (Inr (LDB_Load E path c),
         w\<lparr>parsed_encoding := c,
           calls := calls w @ [Load LDB path [], DetectEncodings, Load LDB path c]\<rparr>)"
      by (simp add: read_ldb_first_candidate)
    then show "read_ldb E path [] w =
        (Inr (LDB_Load E path c),
         w\<lparr>parsed_encoding := c,
           calls := calls w @ [Load LDB path [], DetectEncodings, Load LDB path c]\<rparr>)" .
    have pe: "parsed_encoding (snd (read_ldb E path [] w)) = c"
      by (simp add: r)
    {
      assume e: "enc = [] \<or> enc = ''auto''"
      show "read_lmt E q enc (snd (read_ldb E path [] w)) =
           (LMT_Load E q c, log (Load LMT q c) (snd (read_ldb E path [] w)))"
        using lmt [OF e, of "snd (read_ldb E path [] w)"] pe by simp
      show "read_lmu E p enc (snd (read_ldb E path [] w)) =
           (LMU_Load E (resolve_path p) c,
            log (Load LMU (resolve_path p) c) (snd (read_ldb E path [] w)))"
        using lmu [OF e, of "snd (read_ldb E path [] w)"] pe by simp
      assume "c \<noteq> []"
      then show "read_lcf E p enc (snd (read_ldb E path [] w)) =
              read_lcf E p c (snd (read_ldb E path [] w))"
        using lcf [OF e, of "snd (read_ldb E path [] w)"] pe by simp
    }
  next
    assume "LDB_Load E path [] = Some d \<and> DetectEncodings_of E d = []"
    then show "read_ldb E path [] w =
        (Inr (LDB_Load E path (GetLocaleEncoding E)),
         w\<lparr>calls := calls w @ [Load LDB path [], DetectEncodings,
                                 Load LDB path (GetLocaleEncoding E)]\<rparr>)"
      by (simp add: read_ldb_locale)
  next
    assume h: "read_header (file_bytes E (resolve_path p)) = signature LDB \<and>
      (enc = [] \<or> enc = ''auto'') \<and> parsed_encoding w = [] \<and>
      LDB_Load E (resolve_path p) [] = Some d"
    {
      assume "DetectEncodings_of E d = c # cs \<and> probe E (resolve_path p) d (c # cs) = None"
      then show "read_lcf E p enc w =
           (Inr (ObjDatabase (LDB_Load E (resolve_path p) c)),
            w\<lparr>parsed_encoding := c,
              calls := calls w @ [Load LDB (resolve_path p) [], DetectEncodings,
                                  Load LDB (resolve_path p) c]\<rparr>)"
        using h read_lcf_first_candidate [of E p enc w d c cs] by blast
    }
    {
      assume "DetectEncodings_of E d = []"
      then show "read_lcf E p enc w =
           (Inr (ObjDatabase (LDB_Load E (resolve_path p) (GetLocaleEncoding E))),
            w\<lparr>calls := calls w @ [Load LDB (resolve_path p) [], DetectEncodings,
                                    Load LDB (resolve_path p) (GetLocaleEncoding E)]\<rparr>)"
        using h read_lcf_locale [of E p enc w d] by blast
    }
  next
    assume e: "enc = [] \<or> enc = ''auto''"
    show "read_lmt E q enc w =
        (LMT_Load E q (parsed_encoding w), log (Load LMT q (parsed_encoding w)) w)"
      by (rule lmt [OF e])
    show "read_lmu E p enc w =
        (LMU_Load E (resolve_path p) (parsed_encoding w),
         log (Load LMU (resolve_path p) (parsed_encoding w)) w)"
      by (rule lmu [OF e])
    assume "parsed_encoding w \<noteq> []"
    then show "read_lcf E p enc w = read_lcf E p (parsed_encoding w) w"
      by (rule lcf [OF e])
  next
    show "calls (snd (read_lmt E q enc w)) =
      calls w @ [Load LMT q (if enc = [] \<or> enc = ''auto'' then parsed_encoding w else enc)]"
      by (simp add: read_lmt_def Let_def)
  next
    show "calls (snd (read_lmu E p enc w)) =
      calls w @ [Load LMU (resolve_path p)
                   (if enc = [] \<or> enc = ''auto'' then parsed_encoding w else enc)]"
      by (simp add: read_lmu_def Let_def)
  next
    assume "read_header (file_bytes E (resolve_path p)) \<noteq> signature LDB"
    then show "DetectEncodings \<notin> set (drop (length (calls w)) (calls (snd (read_lcf E p enc w))))"
      by (simp add: read_lcf_def Let_def)
  qed
qed

theorem stored_encoding_reuse_witness:
  "read_ldb (fixture_env [''windows-1252''] ''System'' []) ''RPG_RT.ldb'' [] w0
     = (Inr (Some (fixture_db ''System'')),
        \<lparr>parsed_encoding = ''windows-1252'',
         calls = [Load LDB ''RPG_RT.ldb'' [], DetectEncodings,
                  Load LDB ''RPG_RT.ldb'' ''windows-1252'']\<rparr>) \<and>
   read_lmt (fixture_env [''windows-1252''] ''System'' []) ''RPG_RT.lmt'' ''auto''
       (snd (read_ldb (fixture_env [''windows-1252''] ''System'' []) ''RPG_RT.ldb'' [] w0))
     = (Some (),
        \<lparr>parsed_encoding = ''windows-1252'',
         calls = [Load LDB ''RPG_RT.ldb'' [], DetectEncodings,
                  Load LDB ''RPG_RT.ldb'' ''windows-1252'',
                  Load LMT ''RPG_RT.lmt'' ''windows-1252'']\<rparr>) \<and>
   read_lcf (fixture_env [] ''System'' []) (Path ''RPG_RT.ldb'') ''auto'' w0
     = (Inr (ObjDatabase (Some (fixture_db ''System''))),
        \<lparr>parsed_encoding = [],
         calls = [Load LDB ''RPG_RT.ldb'' [], DetectEncodings,
                  Load LDB ''RPG_RT.ldb'' ''UTF-8'']\<rparr>) \<and>
   DetectEncodings \<notin> set (calls (snd (read_lcf (fixture_env [''windows-1252''] ''System'' [])
                                        (Path ''RPG_RT.lmt'') ''auto'' w0)))"
proof -
  let ?E = "fixture_env [''windows-1252''] ''System'' []"
  let ?F = "fixture_env [] ''System'' []"
  have pr: "probe ?E ''RPG_RT.ldb'' (fixture_db ''System'') [''windows-1252''] = None"
    by (simp add: fixture_env_def fixture_db_def ascii_System)
  have a: "LDB_Load (fixture_env cands ''System'' []) ''RPG_RT.ldb'' e = Some (fixture_db ''System'')"
      "DetectEncodings_of (fixture_env cands ''System'' []) (fixture_db ''System'') = cands"
      "read_header (file_bytes (fixture_env cands ''System'' []) ''RPG_RT.ldb'') = ''LcfDataBas''"
      "read_header (file_bytes (fixture_env cands ''System'' []) ''RPG_RT.lmt'') \<noteq> ''LcfDataBas''"
      "LMT_Load (fixture_env cands ''System'' []) ''RPG_RT.lmt'' e = Some ()"
      "GetLocaleEncoding (fixture_env cands ''System'' []) = ''UTF-8''"
    for cands e
    by (simp_all add: fixture_env_def read_header_def)
  note T = stored_encoding_reuse [where E = ?E
        and path = "''RPG_RT.ldb''" and d = "fixture_db ''System''" and c = "''windows-1252''"
        and cs = "[]" and w = w0 and enc = "''auto''" and q = "''RPG_RT.lmt''"
        and p = "Path ''RPG_RT.lmt''"]
  note T0 = stored_encoding_reuse [where E = ?F
        and path = "''RPG_RT.ldb''" and d = "fixture_db ''System''" and c = "''windows-1252''"
        and cs = "[]" and w = w0 and enc = "''auto''" and q = "''RPG_RT.lmt''"
        and p = "Path ''RPG_RT.ldb''"]
  have r1: "read_ldb ?E ''RPG_RT.ldb'' [] w0 =
        (Inr (Some (fixture_db ''System'')),
         w0\<lparr>parsed_encoding := ''windows-1252'',
           calls := calls w0 @ [Load LDB ''RPG_RT.ldb'' [], DetectEncodings,
                                Load LDB ''RPG_RT.ldb'' ''windows-1252'']\<rparr>)"
    using T pr by (simp add: a)
  have r2: "read_lmt ?E ''RPG_RT.lmt'' ''auto'' (snd (read_ldb ?E ''RPG_RT.ldb'' [] w0)) =
           (Some (), log (Load LMT ''RPG_RT.lmt'' ''windows-1252'')
                       (snd (read_ldb ?E ''RPG_RT.ldb'' [] w0)))"
    using T [unfolded a] pr by blast
  have r3: "read_lcf ?F (Path ''RPG_RT.ldb'') ''auto'' w0 =
           (Inr (ObjDatabase (Some (fixture_db ''System''))),
            w0\<lparr>calls := calls w0 @ [Load LDB ''RPG_RT.ldb'' [], DetectEncodings,
                                     Load LDB ''RPG_RT.ldb'' ''UTF-8'']\<rparr>)"
    using T0 by (simp add: a w0_def)
  have r4: "DetectEncodings \<notin> set (drop (length (calls w0))
              (calls (snd (read_lcf ?E (Path ''RPG_RT.lmt'') ''auto'' w0))))"
    using T by (simp add: a del: probe.simps)
  show ?thesis
    using r1 r2 r3 r4 by (simp add: w0_def log_def)
qed

subsection \<open>C9: the \<open>encoding\<close> operation\<close>

text \<open>
  C9: called with the empty string, \<open>encoding\<close> returns the stored encoding and
  changes nothing; called with any other string, it stores that string and returns it.
\<close>

theorem encoding_get_set:
  "encoding [] w = (parsed_encoding w, w) \<and>
   (enc \<noteq> [] \<longrightarrow> encoding enc w = (enc, w\<lparr>parsed_encoding := enc\<rparr>))"
  by (simp add: encoding_def)

theorem encoding_get_set_witness:
  "encoding [] \<lparr>parsed_encoding = ''shift_jis'', calls = []\<rparr>
     = (''shift_jis'', \<lparr>parsed_encoding = ''shift_jis'', calls = []\<rparr>) \<and>
   encoding ''1252'' \<lparr>parsed_encoding = ''shift_jis'', calls = []\<rparr>
     = (''1252'', \<lparr>parsed_encoding = ''1252'', calls = []\<rparr>)"
  using encoding_get_set [of "\<lparr>parsed_encoding = ''shift_jis'', calls = []\<rparr>" "''1252''"]
  by simp

subsection \<open>C10: the file name of a map unit\<close>

text \<open>
  C10 as stated (exactly four digits for every integer) fails from 10000 on, where
  all five digits are written, and below zero, where the fill goes before the sign.
\<close>

theorem map_path_five_digits:
  "map_path 10000 = ''Map10000.lmu'' \<and> map_path (- 1) = ''Map00-1.lmu''"
  by (simp add: map_path_def show_int_def setw_setfill_def decimal_10000 decimal_1
      numeral_2_eq_2)

text \<open>
  C10, amended.  For an id from 0 to 9999 the path is \<open>Map\<close>, the id padded with
  zeros to exactly four decimal digits, and \<open>.lmu\<close>; for an id of 10000 or more
  it is \<open>Map\<close>, all the decimal digits of the id (more than four), and
  \<open>.lmu\<close>.
\<close>

theorem map_path_four_digits:
  "(0 \<le> sint n \<and> sint n \<le> 9999 \<longrightarrow>
      map_path n = ''Map'' @ four_digits (nat (sint n)) @ ''.lmu'') \<and>
   (10000 \<le> sint n \<longrightarrow>
      map_path n = ''Map'' @ decimal (nat (sint n)) @ ''.lmu'' \<and>
      4 < length (decimal (nat (sint n))))"
proof (intro conjI impI)
  assume "0 \<le> sint n \<and> sint n \<le> 9999"
  then have "nat (sint n) < 10000" "\<not> sint n < 0" by auto
  then show "map_path n = ''Map'' @ four_digits (nat (sint n)) @ ''.lmu''"
    by (simp add: map_path_def show_int_def setw_four_digits)
next
  assume h: "10000 \<le> sint n"
  then have "1000 \<le> nat (sint n)" "\<not> sint n < 0" by auto
  then show "map_path n = ''Map'' @ decimal (nat (sint n)) @ ''.lmu''"
    by (simp add: map_path_def show_int_def setw_wide)
next
  assume h: "10000 \<le> sint n"
  then have a: "10 \<le> nat (sint n)" "1000 \<le> nat (sint n) div 10" by auto
  show "4 < length (decimal (nat (sint n)))"
    using length_decimal_10 [OF a(1)] length_decimal_ge [OF a(2)] by linarith
qed

theorem map_path_four_digits_witness:
  "map_path 1 = ''Map0001.lmu'' \<and> map_path 9999 = ''Map9999.lmu''"
proof -
  have a: "four_digits (nat (sint (1 :: 32 word))) = ''0001''"
    by (simp add: four_digits_def digit_chars)
  have b: "four_digits (nat (sint (9999 :: 32 word))) = ''9999''"
    by (simp add: four_digits_def digit_chars)
  show ?thesis
    using map_path_four_digits [of 1] map_path_four_digits [of 9999] a b by simp
qed

section \<open>Properties of the chunk codec\<close>

subsection \<open>Varints and chunk headers\<close>

lemma byte_low: "n < 128 \<Longrightarrow> unat (of_nat n :: byte) = n"
  by (simp add: unat_of_nat)

lemma byte_high: "unat (of_nat (128 + n mod 128) :: byte) = 128 + n mod 128"
proof -
  have "128 + n mod 128 < (256::nat)" by simp
  then have "(128 + n mod 128) mod 2 ^ LENGTH(8) = 128 + n mod 128" by simp
  then show ?thesis by (simp only: unat_of_nat)
qed

lemma decode_digits_encode: "decode_digits (encode_varint n @ rest) = Inr (n, rest)"
proof (induction n rule: encode_varint.induct)
  case (1 n)
  show ?case
  proof (cases "n < 128")
    case True
    then show ?thesis
      by (subst encode_varint.simps) (simp add: byte_low)
  next
    case False
    have "decode_digits (encode_varint (n div 128) @ rest) = Inr (n div 128, rest)"
      using 1 False by simp
    then show ?thesis
      using False
      by (subst encode_varint.simps) (simp add: byte_high del: of_nat_add)
  qed
qed

lemma decode_varint_encode:
  "n < 2 ^ target_width \<Longrightarrow> decode_varint (encode_varint n @ rest) = Inr (n, rest)"
  by (simp add: decode_varint_def decode_digits_encode)

lemma decode_chunk_header_encode:
  "t < 2 ^ target_width \<Longrightarrow> n < 2 ^ target_width \<Longrightarrow>
     decode_chunk_header (encode_chunk_header t n @ rest) = Inr (t, n, rest)"
  by (simp add: decode_chunk_header_def encode_chunk_header_def decode_varint_encode)

lemma encode_varint_nonempty: "encode_varint n \<noteq> []"
  by (subst encode_varint.simps) simp

lemma decode_scalar_encode:
  "n < 2 ^ target_width \<Longrightarrow> decode_scalar (encode_varint n) = Inr n"
  using decode_varint_encode [of n "[]"] by (simp add: decode_scalar_def)

lemma decode_varints_encode:
  "list_all (\<lambda>x. x < 2 ^ target_width) xs \<Longrightarrow>
     decode_varints (concat (map encode_varint xs)) = Inr xs"
proof (induction xs)
  case Nil
  show ?case by (subst decode_varints.simps) simp
next
  case (Cons x xs)
  then show ?case
    by (subst decode_varints.simps)
      (simp add: encode_varint_nonempty decode_varint_encode)
qed

subsection \<open>Bit arrays\<close>

lemma pack_byte_bound: "pack_byte bs < 2 ^ length bs"
proof (induction bs)
  case Nil
  show ?case by simp
next
  case (Cons b bs)
  then show ?case by (cases b) simp_all
qed

lemma unat_pack_byte:
  assumes "length bs \<le> 8"
  shows "unat (of_nat (pack_byte bs) :: byte) = pack_byte bs"
proof -
  have "(2::nat) ^ length bs \<le> 2 ^ 8"
    using assms by (rule power_increasing) simp
  then have "pack_byte bs < 256"
    using pack_byte_bound [of bs] by simp
  then show ?thesis
    by (simp add: unat_of_nat)
qed

lemma unpack_pack_byte: "unpack_byte (length bs) (pack_byte bs) = bs"
proof (induction bs)
  case Nil
  show ?case by simp
next
  case (Cons b bs)
  then show ?case by (cases b) simp_all
qed

lemma div8_step: "0 < n \<Longrightarrow> Suc ((n - 8 + 7) div 8) = (n + 7) div (8::nat)"
proof (cases "8 \<le> n")
  case True
  then obtain m where "n = m + 8" by (metis le_add_diff_inverse2)
  then show ?thesis by simp
next
  case False
  assume "0 < n"
  with False have "n - 8 = 0" "(n + 7) div 8 = 1" by simp_all
  then show ?thesis by simp
qed

lemma length_pack_bits: "length (pack_bits bs) = (length bs + 7) div 8"
proof (induction bs rule: pack_bits.induct)
  case (1 bs)
  show ?case
  proof (cases "bs = []")
    case True
    then show ?thesis by (subst pack_bits.simps) simp
  next
    case False
    then have ih: "length (pack_bits (drop 8 bs)) = (length bs - 8 + 7) div 8"
      using 1 by simp
    have eq: "pack_bits bs = of_nat (pack_byte (take 8 bs)) # pack_bits (drop 8 bs)"
      using False by (subst pack_bits.simps) simp
    have "0 < length bs" using False by simp
    then have "Suc ((length bs - 8 + 7) div 8) = (length bs + 7) div 8"
      by (rule div8_step)
    then show ?thesis
      by (simp add: eq ih)
  qed
qed

lemma unpack_pack_bits: "unpack_bits (length bs) (pack_bits bs) = bs"
proof (induction bs rule: pack_bits.induct)
  case (1 bs)
  show ?case
  proof (cases "bs = []")
    case True
    then show ?thesis by (subst pack_bits.simps) simp
  next
    case False
    have ih: "unpack_bits (length (drop 8 bs)) (pack_bits (drop 8 bs)) = drop 8 bs"
      using 1 False by simp
    have a: "unat (of_nat (pack_byte (take 8 bs)) :: byte) = pack_byte (take 8 bs)"
      by (rule unat_pack_byte) simp
    have b: "min (length bs) 8 = length (take 8 bs)"
      by simp
    have "unpack_bits (length bs) (pack_bits bs)
        = unpack_byte (length (take 8 bs)) (pack_byte (take 8 bs))
          @ unpack_bits (length bs - 8) (pack_bits (drop 8 bs))"
      using False by (subst pack_bits.simps) (simp only: unpack_bits.simps a b if_False)
    also have "\<dots> = take 8 bs @ drop 8 bs"
      using ih by (simp only: unpack_pack_byte length_drop)
    finally show ?thesis by simp
  qed
qed

subsection \<open>Storing fields\<close>

lemma map_fst_set_field: "map fst (set_field t v r) = map fst r"
  by (induction r) (auto simp add: set_field_def)

lemma map_of_set_field:
  "map_of (set_field t v r) t' =
     (if t' = t \<and> t \<in> fst ` set r then Some v else map_of r t')"
  by (induction r) (force simp add: set_field_def)+

lemma map_fst_store: "map fst (store fs r cur) = map fst cur"
  by (induction fs r cur rule: store.induct) (auto simp add: Let_def map_fst_set_field)

lemma map_of_store:
  "distinct (map fst fs) \<Longrightarrow>
   map_of (store fs r cur) t =
     (case map_of fs t of
        None \<Rightarrow> map_of cur t
      | Some (k, dv) \<Rightarrow>
          if field_value r t dv = dv \<or> t \<notin> fst ` set cur then map_of cur t
          else Some (field_value r t dv))"
proof (induction fs r cur rule: store.induct)
  case (1 r cur)
  show ?case by simp
next
  case (2 t' k dv fs r cur)
  have d: "distinct (map fst fs)" "t' \<notin> fst ` set fs"
    using 2(2) by auto
  have n: "map_of fs t' = None"
    using d(2) by (simp add: map_of_eq_None_iff)
  let ?cur' = "let v = field_value r t' dv in if v = dv then cur else set_field t' v cur"
  have keys: "fst ` set ?cur' = fst ` set cur"
    using map_fst_set_field [of t' "field_value r t' dv" cur]
    by (metis (full_types) list.set_map)
  have ih: "map_of (store fs r ?cur') t =
     (case map_of fs t of
        None \<Rightarrow> map_of ?cur' t
      | Some (k, dv) \<Rightarrow>
          if field_value r t dv = dv \<or> t \<notin> fst ` set ?cur' then map_of ?cur' t
          else Some (field_value r t dv))"
    using 2(1) d(1) by simp
  show ?case
  proof (cases "t = t'")
    case True
    then show ?thesis
      using ih n by (auto simp add: Let_def map_of_set_field map_of_eq_None_iff)
  next
    case False
    then have "map_of ?cur' t = map_of cur t"
      by (simp add: Let_def map_of_set_field)
    then show ?thesis
      using ih False keys by (simp split: option.splits)
  qed
qed

lemma alist_eqI:
  assumes "map fst xs = map fst ys" and "distinct (map fst xs)"
    and "\<And>t. t \<in> set (map fst xs) \<Longrightarrow> map_of xs t = map_of ys t"
  shows "xs = ys"
  using assms
proof (induction xs arbitrary: ys)
  case Nil
  then show ?case by simp
next
  case (Cons x xs)
  obtain y ys' where ys: "ys = y # ys'"
    using Cons.prems(1) by (cases ys) auto
  obtain kx vx where x: "x = (kx, vx)" by (cases x)
  obtain ky vy where y: "y = (ky, vy)" by (cases y)
  have k: "kx = ky" "map fst xs = map fst ys'"
    using Cons.prems(1) ys x y by auto
  have fresh: "kx \<notin> set (map fst xs)" "distinct (map fst xs)"
    using Cons.prems(2) x by auto
  have "map_of (x # xs) kx = map_of ys kx"
    by (rule Cons.prems(3)) (simp add: x)
  then have vxy: "vx = vy"
    using k(1) ys x y by simp
  have "xs = ys'"
  proof (rule Cons.IH [OF k(2) fresh(2)])
    fix t assume t: "t \<in> set (map fst xs)"
    then have ne: "t \<noteq> kx" using fresh(1) by blast
    have "map_of (x # xs) t = map_of ys t"
      using t by (intro Cons.prems(3)) simp
    then show "map_of xs t = map_of ys' t"
      using ne ys x y k(1) by simp
  qed
  then show ?case using vxy k(1) ys x y by simp
qed

lemma map_of_default_record:
  "map_of (default_record d) t = map_option snd (map_of d t)"
  by (induction d) (auto simp add: default_record_def)

lemma map_fst_default_record: "map fst (default_record d) = map fst d"
  by (induction d) (auto simp add: default_record_def)

lemma store_default:
  assumes dist: "distinct (map fst d)" and keys: "map fst r = map fst d"
  shows "store d r (default_record d) = r"
proof (rule alist_eqI)
  show "map fst (store d r (default_record d)) = map fst r"
    by (simp add: map_fst_store map_fst_default_record keys)
  show "distinct (map fst (store d r (default_record d)))"
    by (simp add: map_fst_store map_fst_default_record dist)
next
  show "map_of (store d r (default_record d)) t = map_of r t"
    if "t \<in> set (map fst (store d r (default_record d)))" for t
  proof -
    from that have "t \<in> set (map fst (store d r (default_record d)))" .
    then have td: "t \<in> fst ` set d"
      by (simp add: map_fst_store map_fst_default_record)
    then obtain k dv where f: "map_of d t = Some (k, dv)"
      by (metis map_of_eq_None_iff not_None_eq prod.collapse)
    have "t \<in> fst ` set r"
      using td keys by (metis list.set_map)
    then obtain v where v: "map_of r t = Some v"
      by (metis map_of_eq_None_iff not_None_eq)
    have tc: "t \<in> fst ` set (default_record d)"
      using td map_fst_default_record [of d] by (metis list.set_map)
    show "map_of (store d r (default_record d)) t = map_of r t"
      using f v tc
      by (simp add: map_of_store [OF dist] map_of_default_record field_value_def)
  qed
qed

subsection \<open>One step of the reader\<close>

lemma read_block_append: "read_block (length p) (p @ rest) = Inr (p, rest)"
  by (simp add: read_block_def)

lemma read_block_ok: "n \<le> length bs \<Longrightarrow> read_block n bs = Inr (take n bs, drop n bs)"
  by (simp add: read_block_def)

lemma read_fields_terminator: "read_fields d cur (terminator @ rest) = Inr (cur, rest)"
  by (subst read_fields.simps)
    (simp add: terminator_def decode_chunk_header_encode)

lemma read_fields_chunk:
  assumes "0 < t" "t < 2 ^ target_width" "length p < 2 ^ target_width"
  shows "read_fields d cur (encode_chunk_header t (length p) @ p @ rest) =
     (case map_of d t of
        None \<Rightarrow> read_fields d cur rest
      | Some (k, dv) \<Rightarrow>
          (case decode_payload k p of
             Inl e \<Rightarrow> Inl e
           | Inr v \<Rightarrow> read_fields d (set_field t v cur) rest))"
  using assms
  by (subst read_fields.simps)
    (simp add: decode_chunk_header_encode read_block_append split: option.splits sum.splits)

lemma read_elems_Nil: "read_elems d [] = Inr []"
  by (subst read_elems.simps) simp

lemma read_elems_elem:
  assumes "length b < 2 ^ target_width"
  shows "read_elems d (encode_varint (length b) @ b @ rest) =
     (case read_fields d (default_record d) b of
        Inl e \<Rightarrow> Inl e
      | Inr (r, rest') \<Rightarrow>
          (case read_elems d rest of Inl e \<Rightarrow> Inl e | Inr rs \<Rightarrow> Inr (r # rs)))"
  using assms
  by (subst read_elems.simps)
    (simp add: decode_varint_encode encode_varint_nonempty read_block_append
      split: sum.splits)

subsection \<open>Reading back what the writer wrote\<close>

lemma target_width_pos: "0 < target_width"
  by (simp add: target_width_def)

lemma one_fits: "1 < (2::nat) ^ target_width"
  using one_less_power [of "2::nat" target_width] target_width_pos by simp

lemma read_elems_all:
  assumes "\<And>r. r \<in> set rs \<Longrightarrow>
             length (enc r) < 2 ^ target_width \<and>
             read_fields d (default_record d) (enc r) = Inr (r, [])"
  shows "read_elems d (concat (map (\<lambda>r. encode_varint (length (enc r)) @ enc r) rs)) = Inr rs"
  using assms
proof (induction rs)
  case Nil
  show ?case by (simp add: read_elems_Nil)
next
  case (Cons r rs)
  have a: "length (enc r) < 2 ^ target_width"
    and b: "read_fields d (default_record d) (enc r) = Inr (r, [])"
    using Cons.prems [of r] by simp_all
  have ih: "read_elems d (concat (map (\<lambda>r. encode_varint (length (enc r)) @ enc r) rs)) = Inr rs"
    using Cons.IH Cons.prems by simp
  show ?case
    using read_elems_elem [OF a, of d "concat (map (\<lambda>r. encode_varint (length (enc r)) @ enc r) rs)"]
    by (simp add: b ih)
qed

lemma roundtrip_aux:
  "wf_kind k \<longrightarrow> has_kind k v \<longrightarrow> decode_payload k (encode_payload k v) = Inr v"
  "wf_fields fs \<longrightarrow> typed_fields fs r \<longrightarrow>
     (\<forall>d cur rest. (\<forall>(t, k, dv) \<in> set fs. map_of d t = Some (k, dv)) \<longrightarrow>
        read_fields d cur (write_fields fs r @ rest) = read_fields d (store fs r cur) rest)"
proof (induction k v and fs r rule: encode_payload_write_fields.induct)
  case (1 v)
  show ?case
    using one_fits
    by (auto simp add: decode_scalar_encode split: fvalue.splits)
next
  case (2 v)
  show ?case
    by (auto simp add: decode_scalar_encode split: fvalue.splits)
next
  case (3 v)
  show ?case
    by (auto split: fvalue.splits)
next
  case (4 v)
  show ?case
    by (auto split: fvalue.splits)
next
  case (5 d v)
  show ?case
  proof (intro impI)
    assume wf: "wf_kind (KNested d)" and hk: "has_kind (KNested d) v"
    then obtain r where v: "v = VRecord r" and keys: "map fst r = map fst d"
      and ty: "typed_fields d r"
      by (auto split: fvalue.splits)
    have dist: "distinct (map fst d)" and wff: "wf_fields d"
      using wf by simp_all
    have look: "\<forall>(t, k, dv) \<in> set d. map_of d t = Some (k, dv)"
      using dist by auto
    have "read_fields d (default_record d) (write_fields d r @ terminator)
            = read_fields d (store d r (default_record d)) terminator"
      using 5 [OF v] wff ty look by blast
    also have "\<dots> = Inr (r, [])"
      using read_fields_terminator [of d "store d r (default_record d)" "[]"]
      by (simp add: store_default [OF dist keys])
    finally show "decode_payload (KNested d) (encode_payload (KNested d) v) = Inr v"
      by (simp add: v)
  qed
next
  case (6 d v)
  show ?case
  proof (intro impI)
    assume wf: "wf_kind (KRepeated d)" and hk: "has_kind (KRepeated d) v"
    then obtain rs where v: "v = VList rs"
      and el: "\<And>r. r \<in> set rs \<Longrightarrow> map fst r = map fst d \<and> typed_fields d r \<and>
                 length (write_fields d r @ terminator) < 2 ^ target_width"
      by (auto simp add: list_all_iff split: fvalue.splits)
    have dist: "distinct (map fst d)" and wff: "wf_fields d"
      using wf by simp_all
    have look: "\<forall>(t, k, dv) \<in> set d. map_of d t = Some (k, dv)"
      using dist by auto
    have each: "length (write_fields d r @ terminator) < 2 ^ target_width \<and>
        read_fields d (default_record d) (write_fields d r @ terminator) = Inr (r, [])"
      if r: "r \<in> set rs" for r
    proof -
      have "read_fields d (default_record d) (write_fields d r @ terminator)
              = read_fields d (store d r (default_record d)) terminator"
        using 6 [OF v r] wff el [OF r] look by blast
      also have "\<dots> = Inr (r, [])"
        using read_fields_terminator [of d "store d r (default_record d)" "[]"] el [OF r]
        by (simp add: store_default [OF dist])
      finally show ?thesis using el [OF r] by blast
    qed
    have "read_elems d (concat (map (\<lambda>r. encode_varint (length (write_fields d r @ terminator))
              @ (write_fields d r @ terminator)) rs)) = Inr rs"
      by (rule read_elems_all) (rule each)
    then show "decode_payload (KRepeated d) (encode_payload (KRepeated d) v) = Inr v"
      by (simp add: v Let_def)
  qed
next
  case (7 n v)
  show ?case
    by (auto simp add: decode_varints_encode split: fvalue.splits)
next
  case (8 n v)
  show ?case
    by (auto simp add: length_pack_bits unpack_pack_bits split: fvalue.splits)
next
  case (9 r)
  show ?case by simp
next
  case (10 t k dv fs r)
  show ?case
  proof (intro impI allI)
    fix d cur rest
    assume wf: "wf_fields ((t, k, dv) # fs)" and ty: "typed_fields ((t, k, dv) # fs) r"
      and look: "\<forall>(t, k, dv) \<in> set ((t, k, dv) # fs). map_of d t = Some (k, dv)"
    define v where "v = field_value r t dv"
    have wf': "0 < t" "t < 2 ^ target_width" "wf_kind k" "wf_fields fs"
      using wf by simp_all
    have ty': "typed_fields fs r"
      using ty by simp
    have look': "\<forall>(t, k, dv) \<in> set fs. map_of d t = Some (k, dv)" "map_of d t = Some (k, dv)"
      using look by auto
    have tail: "read_fields d c (write_fields fs r @ rest) = read_fields d (store fs r c) rest" for c
      using 10(2) wf'(4) ty' look'(1) by blast
    show "read_fields d cur (write_fields ((t, k, dv) # fs) r @ rest)
            = read_fields d (store ((t, k, dv) # fs) r cur) rest"
    proof (cases "v = dv")
      case True
      then show ?thesis
        using tail [of cur] by (simp add: v_def [symmetric])
    next
      case False
      have hk: "has_kind k v" and len: "length (encode_payload k v) < 2 ^ target_width"
        using ty False by (simp_all add: v_def [symmetric] Let_def)
      have dec: "decode_payload k (encode_payload k v) = Inr v"
        using 10(1) [of v] False wf'(3) hk by (simp add: v_def)
      have "read_fields d cur (encode_chunk_header t (length (encode_payload k v))
                @ encode_payload k v @ (write_fields fs r @ rest))
              = read_fields d (set_field t v cur) (write_fields fs r @ rest)"
        using read_fields_chunk [OF wf'(1) wf'(2) len] look'(2) dec by simp
      then show ?thesis
        using False tail [of "set_field t v cur"]
        by (simp add: v_def [symmetric] Let_def)
    qed
  qed
qed

lemma sample_wf: "wf_descr sample_descr"
  by (simp add: wf_descr_def sample_descr_def target_width_def)

lemma sample_conforms: "conforms sample_descr sample_record"
  by (simp add: conforms_def sample_descr_def sample_record_def field_value_def
      target_width_def float_width_def encode_varint.simps pack_bits.simps
      terminator_def encode_chunk_header_def)

subsection \<open>C5: round trip\<close>

text \<open>
  C5: for every descriptor with unique, non-zero tags and every record value of its
  type, \<open>read_record\<close> applied to the bytes \<open>write_record\<close> produces (followed
  by any further bytes) returns the record itself, equal in every field, and leaves
  exactly the further bytes.  The record may hold fields of every kind, nested and
  repeated records included, and fields left at their default, which the writer
  omits.
\<close>

theorem write_read_roundtrip:
  assumes "wf_descr d" and "conforms d r"
  shows "read_record d (write_record d r @ rest) = Inr (r, rest)"
proof -
  have dist: "distinct (map fst d)" and wff: "wf_fields d"
    using assms(1) by (simp_all add: wf_descr_def)
  have keys: "map fst r = map fst d" and ty: "typed_fields d r"
    using assms(2) by (simp_all add: conforms_def)
  have look: "\<forall>(t, k, dv) \<in> set d. map_of d t = Some (k, dv)"
    using dist by auto
  have "read_fields d (default_record d) (write_fields d r @ (terminator @ rest))
          = read_fields d (store d r (default_record d)) (terminator @ rest)"
    using roundtrip_aux(2) [of d r] wff ty look by blast
  then show ?thesis
    by (simp add: read_record_def write_record_def read_fields_terminator
        store_default [OF dist keys])
qed

theorem write_read_roundtrip_witness:
  "wf_descr sample_descr \<and> conforms sample_descr sample_record \<and>
   read_record sample_descr (write_record sample_descr sample_record @ [0xFF])
     = Inr (sample_record, [0xFF])"
  using write_read_roundtrip [OF sample_wf sample_conforms, of "[0xFF]"] sample_wf sample_conforms
  by simp

subsection \<open>Chunk positions\<close>

lemma read_fields_after_chunks:
  "after_chunks n d cur bs = Some (cur', post) \<Longrightarrow> read_fields d cur bs = read_fields d cur' post"
proof (induction n arbitrary: cur bs)
  case 0
  then show ?case by simp
next
  case (Suc n)
  from Suc.prems show ?case
    by (subst read_fields.simps)
      (auto simp add: read_block_ok split: sum.splits if_splits option.splits dest: Suc.IH)
qed

lemma decode_digits_local:
  "decode_digits bs = Inr (v, rest) \<Longrightarrow>
     \<exists>pre. bs = pre @ rest \<and> (\<forall>X. decode_digits (pre @ X) = Inr (v, X))"
proof (induction bs arbitrary: v)
  case Nil
  then show ?case by simp
next
  case (Cons b bs)
  show ?case
  proof (cases "unat b < 128")
    case True
    then have "v = unat b" "rest = bs" using Cons.prems by simp_all
    then have "b # bs = [b] @ rest \<and> (\<forall>X. decode_digits ([b] @ X) = Inr (v, X))"
      using True by simp
    then show ?thesis by blast
  next
    case False
    then obtain v' where d: "decode_digits bs = Inr (v', rest)" and v: "v = unat b - 128 + 128 * v'"
      using Cons.prems by (auto split: sum.splits)
    obtain pre where p: "bs = pre @ rest" "\<forall>X. decode_digits (pre @ X) = Inr (v', X)"
      using Cons.IH [OF d] by blast
    have "b # bs = (b # pre) @ rest \<and> (\<forall>X. decode_digits ((b # pre) @ X) = Inr (v, X))"
      using p False v by simp
    then show ?thesis by blast
  qed
qed

lemma decode_varint_local:
  assumes "decode_varint bs = Inr (v, rest)"
  shows "\<exists>pre. bs = pre @ rest \<and> (\<forall>X. decode_varint (pre @ X) = Inr (v, X))"
proof -
  have d: "decode_digits bs = Inr (v, rest)" and b: "v < 2 ^ target_width"
    using assms by (auto simp add: decode_varint_def split: sum.splits if_splits)
  obtain pre where "bs = pre @ rest" "\<forall>X. decode_digits (pre @ X) = Inr (v, X)"
    using decode_digits_local [OF d] by blast
  then have "bs = pre @ rest \<and> (\<forall>X. decode_varint (pre @ X) = Inr (v, X))"
    using b by (simp add: decode_varint_def)
  then show ?thesis by blast
qed

lemma decode_chunk_header_local:
  assumes "decode_chunk_header bs = Inr (tag, len, rest)"
  shows "\<exists>pre. bs = pre @ rest \<and> (\<forall>X. decode_chunk_header (pre @ X) = Inr (tag, len, X))"
proof -
  obtain bs1 where a: "decode_varint bs = Inr (tag, bs1)" and b: "decode_varint bs1 = Inr (len, rest)"
    using assms by (auto simp add: decode_chunk_header_def split: sum.splits)
  obtain p1 where p1: "bs = p1 @ bs1" "\<forall>X. decode_varint (p1 @ X) = Inr (tag, X)"
    using decode_varint_local [OF a] by blast
  obtain p2 where p2: "bs1 = p2 @ rest" "\<forall>X. decode_varint (p2 @ X) = Inr (len, X)"
    using decode_varint_local [OF b] by blast
  have "bs = (p1 @ p2) @ rest \<and> (\<forall>X. decode_chunk_header ((p1 @ p2) @ X) = Inr (tag, len, X))"
    using p1 p2 by (simp add: decode_chunk_header_def)
  then show ?thesis by blast
qed

lemma after_chunks_Suc:
  assumes "decode_chunk_header bs = Inr (tag, len, rest)" and "tag \<noteq> 0" and "len \<le> length rest"
  shows "after_chunks (Suc n) d cur bs =
     (case map_of d tag of
        None \<Rightarrow> after_chunks n d cur (drop len rest)
      | Some (k, dv) \<Rightarrow>
          (case decode_payload k (take len rest) of
             Inl e \<Rightarrow> None
           | Inr v \<Rightarrow> after_chunks n d (set_field tag v cur) (drop len rest)))"
  using assms by simp

lemma after_chunks_local:
  "after_chunks n d cur bs = Some (cur', post) \<Longrightarrow>
     \<exists>pre. bs = pre @ post \<and> (\<forall>X. after_chunks n d cur (pre @ X) = Some (cur', X))"
proof (induction n arbitrary: cur bs)
  case 0
  then have "bs = [] @ post \<and> (\<forall>X. after_chunks 0 d cur ([] @ X) = Some (cur', X))"
    by simp
  then show ?case by blast
next
  case (Suc n)
  obtain tag len rest where h: "decode_chunk_header bs = Inr (tag, len, rest)"
    using Suc.prems by (auto split: sum.splits)
  have ok: "tag \<noteq> 0" "len \<le> length rest"
    using Suc.prems h by (auto split: if_splits)
  obtain hp where hp: "bs = hp @ rest" "\<forall>X. decode_chunk_header (hp @ X) = Inr (tag, len, X)"
    using decode_chunk_header_local [OF h] by blast
  have l: "length (take len rest) = len"
    using ok(2) by simp
  have unfold: "after_chunks (Suc n) d cur bs =
     (case map_of d tag of
        None \<Rightarrow> after_chunks n d cur (drop len rest)
      | Some (k, dv) \<Rightarrow>
          (case decode_payload k (take len rest) of
             Inl e \<Rightarrow> None
           | Inr v \<Rightarrow> after_chunks n d (set_field tag v cur) (drop len rest)))"
    by (rule after_chunks_Suc [OF h ok])
  have unfold': "after_chunks (Suc n) d cur (hp @ take len rest @ Y) =
     (case map_of d tag of
        None \<Rightarrow> after_chunks n d cur Y
      | Some (k, dv) \<Rightarrow>
          (case decode_payload k (take len rest) of
             Inl e \<Rightarrow> None
           | Inr v \<Rightarrow> after_chunks n d (set_field tag v cur) Y))" for Y
  proof -
    have a: "decode_chunk_header (hp @ take len rest @ Y) = Inr (tag, len, take len rest @ Y)"
      using hp(2) by blast
    have b: "len \<le> length (take len rest @ Y)"
      using l by simp
    have "after_chunks (Suc n) d cur (hp @ take len rest @ Y) =
     (case map_of d tag of
        None \<Rightarrow> after_chunks n d cur (drop len (take len rest @ Y))
      | Some (k, dv) \<Rightarrow>
          (case decode_payload k (take len (take len rest @ Y)) of
             Inl e \<Rightarrow> None
           | Inr v \<Rightarrow> after_chunks n d (set_field tag v cur) (drop len (take len rest @ Y))))"
      by (rule after_chunks_Suc [OF a ok(1) b])
    moreover have "take len (take len rest @ Y) = take len rest"
      using l by simp
    moreover have "drop len (take len rest @ Y) = Y"
      using l by simp
    ultimately show ?thesis by (simp only:)
  qed
  obtain cur1 where step: "after_chunks n d cur1 (drop len rest) = Some (cur', post)"
    and same: "\<And>Y. after_chunks (Suc n) d cur (hp @ take len rest @ Y) = after_chunks n d cur1 Y"
  proof (cases "map_of d tag")
    case None
    show ?thesis
      using that [of cur] Suc.prems unfold unfold' None by simp
  next
    case (Some kd)
    obtain k dv where kd: "kd = (k, dv)" by (cases kd)
    obtain v where v: "decode_payload k (take len rest) = Inr v"
      using Suc.prems unfold Some kd by (cases "decode_payload k (take len rest)") simp_all
    show ?thesis
      using that [of "set_field tag v cur"] Suc.prems unfold unfold' Some kd v by simp
  qed
  obtain p2 where p2: "drop len rest = p2 @ post" "\<forall>X. after_chunks n d cur1 (p2 @ X) = Some (cur', X)"
    using Suc.IH [OF step] by blast
  have rest: "rest = take len rest @ p2 @ post"
    using p2(1) by (metis append_take_drop_id)
  have "after_chunks (Suc n) d cur ((hp @ take len rest @ p2) @ X) = Some (cur', X)" for X
    using same [of "p2 @ X"] p2(2) by simp
  moreover have "bs = (hp @ take len rest @ p2) @ post"
    using hp(1) rest by simp
  ultimately show ?case by blast
qed

lemma after_chunks_insert:
  assumes "after_chunks n d cur (pre @ post) = Some (cur', post)"
  shows "after_chunks n d cur (pre @ X) = Some (cur', X)"
proof -
  obtain pre' where p: "pre @ post = pre' @ post" "\<forall>X. after_chunks n d cur (pre' @ X) = Some (cur', X)"
    using after_chunks_local [OF assms] by blast
  then have "pre' = pre" by simp
  then show ?thesis using p(2) by simp
qed

lemma unknown_chunk_invisible:
  assumes pos: "after_chunks n d cur (pre @ post) = Some (cur', post)"
    and unknown: "map_of d t = None"
    and t: "0 < t" "t < 2 ^ target_width"
    and len: "length p < 2 ^ target_width"
  shows "read_fields d cur (pre @ encode_chunk_header t (length p) @ p @ post)
           = read_fields d cur (pre @ post)"
proof -
  have "read_fields d cur (pre @ encode_chunk_header t (length p) @ p @ post)
          = read_fields d cur' (encode_chunk_header t (length p) @ p @ post)"
    by (rule read_fields_after_chunks) (rule after_chunks_insert [OF pos])
  also have "\<dots> = read_fields d cur' post"
    using read_fields_chunk [OF t len, of d cur' post] unknown by simp
  also have "\<dots> = read_fields d cur (pre @ post)"
    using read_fields_after_chunks [OF pos] by simp
  finally show ?thesis .
qed

lemma small_pos:
  "after_chunks 1 small_descr (default_record small_descr) ([0x01, 0x02, 0xAC, 0x02] @ [0x00, 0x00])
     = Some ([(1, VInt 300), (2, VString [])], [0x00, 0x00])"
  by (simp add: small_descr_def default_record_def decode_chunk_header_def decode_varint_def
      target_width_def decode_scalar_def set_field_def)

lemma small_read:
  "read_record small_descr ([0x01, 0x02, 0xAC, 0x02] @ [0x00, 0x00])
     = Inr ([(1, VInt 300), (2, VString [])], [])"
  by (simp add: read_record_def read_fields.simps small_descr_def default_record_def
      decode_chunk_header_def decode_varint_def target_width_def decode_scalar_def
      set_field_def read_block_def)

subsection \<open>C6: unknown tags are skipped\<close>

text \<open>
  C6: take a stream \<open>pre @ post\<close> that \<open>read_record\<close> parses successfully, in
  which \<open>post\<close> starts at a chunk boundary (the reader stands there after \<open>n\<close>
  chunks), and insert at that boundary a chunk whose tag is not in the descriptor and
  whose header declares the length of its payload.  Then \<open>read_record\<close> parses the
  new stream successfully and returns the same record (and the same position) as for
  the stream without the chunk.
\<close>

theorem unknown_chunk_skipped:
  assumes "read_record d (pre @ post) = Inr (r, rest)"
    and "after_chunks n d (default_record d) (pre @ post) = Some (cur, post)"
    and "map_of d t = None" and "0 < t" and "t < 2 ^ target_width"
    and "length p < 2 ^ target_width"
  shows "read_record d (pre @ encode_chunk_header t (length p) @ p @ post) = Inr (r, rest)"
  using assms unknown_chunk_invisible [of n d "default_record d" pre post cur t p]
  by (simp add: read_record_def)

theorem unknown_chunk_skipped_witness:
  "read_record small_descr ([0x01, 0x02, 0xAC, 0x02] @ [0x09, 0x02, 0xDE, 0xAD] @ [0x00, 0x00])
     = Inr ([(1, VInt 300), (2, VString [])], [])"
proof -
  have u: "map_of small_descr 9 = None" "(0::nat) < 9" "(9::nat) < 2 ^ target_width"
    "length [0xDE, 0xAD :: byte] < 2 ^ target_width"
    by (simp_all add: small_descr_def target_width_def)
  have e: "encode_chunk_header 9 (length [0xDE, 0xAD :: byte]) = [0x09, 0x02]"
    by (simp add: encode_chunk_header_def encode_varint.simps)
  show ?thesis
    using unknown_chunk_skipped [OF small_read small_pos u] e by simp
qed

subsection \<open>Chunks that are too long, and reads within the stream\<close>

lemma decode_varint_Nil: "decode_varint [] = Inl TruncatedStream"
  by (simp add: decode_varint_def)

lemma overlong_MalformedChunk:
  "overlong d bs \<Longrightarrow> (\<forall>r. read_fields d r bs = Inl MalformedChunk)"
  "overlong_payload k p \<Longrightarrow> decode_payload k p = Inl MalformedChunk"
  "overlong_elems d bs \<Longrightarrow> read_elems d bs = Inl MalformedChunk"
proof (induction rule: overlong_overlong_payload_overlong_elems.inducts)
  case (here bs tag len body d)
  then show ?case
    by (subst read_fields.simps) simp
next
  case (inside bs tag len body d k dv)
  then show ?case
    by (subst read_fields.simps) (simp add: read_block_ok)
next
  case (after_unknown bs tag len body d)
  then show ?case
    by (subst read_fields.simps) (simp add: read_block_ok)
next
  case (after_known bs tag len body d k dv v)
  then show ?case
    by (subst read_fields.simps) (simp add: read_block_ok)
next
  case (nested d p)
  then show ?case by simp
next
  case (repeated d p)
  then show ?case by simp
next
  case (elem_here bs len rest d)
  then have "bs \<noteq> []" by (auto simp add: decode_varint_Nil)
  with elem_here show ?case
    by (subst read_elems.simps) simp
next
  case (elem_inside bs len rest d)
  then have "bs \<noteq> []" by (auto simp add: decode_varint_Nil)
  with elem_inside show ?case
    by (subst read_elems.simps) (simp add: read_block_ok)
next
  case (elem_after bs len rest d r unread)
  then have "bs \<noteq> []" by (auto simp add: decode_varint_Nil)
  with elem_after show ?case
    by (subst read_elems.simps) (simp add: read_block_ok)
qed

lemma decode_digits_in_bounds: "decode_digits bs \<noteq> Inl OutOfBounds"
  by (induction bs) (auto split: sum.splits)

lemma decode_varint_in_bounds: "decode_varint bs \<noteq> Inl OutOfBounds"
  using decode_digits_in_bounds [of bs]
  by (auto simp add: decode_varint_def split: sum.splits)

lemma decode_chunk_header_in_bounds: "decode_chunk_header bs \<noteq> Inl OutOfBounds"
  using decode_varint_in_bounds
  by (auto simp add: decode_chunk_header_def split: sum.splits)

lemma decode_scalar_in_bounds: "decode_scalar p \<noteq> Inl OutOfBounds"
  using decode_varint_in_bounds [of p]
  by (auto simp add: decode_scalar_def split: sum.splits)

lemma decode_varints_in_bounds: "decode_varints bs \<noteq> Inl OutOfBounds"
proof (induction bs rule: decode_varints.induct)
  case (1 bs)
  show ?case
    using 1 decode_varint_in_bounds [of bs]
    by (subst decode_varints.simps) (auto split: sum.splits)
qed

lemma reader_in_bounds:
  "read_fields d r bs \<noteq> Inl OutOfBounds"
  "decode_payload k p \<noteq> Inl OutOfBounds"
  "read_elems d' bs' \<noteq> Inl OutOfBounds"
proof (induction d r bs and k p and d' bs' rule: read_fields_decode_payload_read_elems.induct)
  case (1 d r bs)
  show ?case
    using 1 decode_chunk_header_in_bounds [of bs]
    by (subst read_fields.simps)
      (auto simp add: read_block_def split: sum.splits option.splits if_splits)
next
  case (2 p)
  show ?case using decode_scalar_in_bounds [of p] by (auto split: sum.splits)
next
  case (3 p)
  show ?case using decode_scalar_in_bounds [of p] by (auto split: sum.splits)
next
  case (4 p)
  show ?case by simp
next
  case (5 p)
  show ?case by simp
next
  case (6 d p)
  then show ?case by (auto split: sum.splits)
next
  case (7 d p)
  then show ?case by (auto split: sum.splits)
next
  case (8 n p)
  show ?case using decode_varints_in_bounds [of p] by (auto split: sum.splits)
next
  case (9 n p)
  show ?case by simp
next
  case (10 d bs)
  show ?case
    using 10 decode_varint_in_bounds [of bs]
    by (subst read_elems.simps)
      (auto simp add: read_block_def split: sum.splits if_splits)
qed

lemma read_fields_suffix:
  "read_fields d r bs = Inr (r', rest) \<Longrightarrow> \<exists>pre. bs = pre @ rest"
proof (induction "length bs" arbitrary: r bs rule: less_induct)
  case less
  obtain tag len body where h: "decode_chunk_header bs = Inr (tag, len, body)"
    using less.prems by (subst (asm) read_fields.simps) (auto split: sum.splits)
  obtain hp where hp: "bs = hp @ body"
    using decode_chunk_header_local [OF h] by blast
  show ?case
  proof (cases "tag = 0")
    case True
    then have "rest = body"
      using less.prems h by (subst (asm) read_fields.simps) simp
    then show ?thesis using hp by blast
  next
    case False
    have le: "len \<le> length body"
      using less.prems h False
      by (subst (asm) read_fields.simps) (auto split: if_splits)
    obtain r1 where "read_fields d r1 (drop len body) = Inr (r', rest)"
      using less.prems h False le
      by (subst (asm) read_fields.simps)
        (auto simp add: read_block_ok split: option.splits sum.splits)
    moreover have "length (drop len body) < length bs"
      using decode_chunk_header_length [OF h] by simp
    ultimately obtain pre where "drop len body = pre @ rest"
      using less.hyps by blast
    then have "bs = (hp @ take len body @ pre) @ rest"
      using hp by (metis append.assoc append_take_drop_id)
    then show ?thesis by blast
  qed
qed

lemma overlong_small: "overlong small_descr [0x01, 0x02, 0xAC, 0x02, 0x02, 0x05, 0x41]"
proof (rule overlong_overlong_payload_overlong_elems.after_known)
  show "decode_chunk_header [0x01, 0x02, 0xAC, 0x02, 0x02, 0x05, 0x41]
          = Inr (1, 2, [0xAC, 0x02, 0x02, 0x05, 0x41])"
    by (simp add: decode_chunk_header_def decode_varint_def target_width_def)
  show "map_of small_descr 1 = Some (KInt, VInt 0)"
    by (simp add: small_descr_def)
  show "decode_payload KInt (take 2 [0xAC, 0x02, 0x02, 0x05, 0x41]) = Inr (VInt 300)"
    by (simp add: decode_scalar_def decode_varint_def target_width_def)
  show "overlong small_descr (drop 2 [0xAC, 0x02, 0x02, 0x05, 0x41])"
  proof (rule overlong_overlong_payload_overlong_elems.here)
    show "decode_chunk_header (drop 2 [0xAC, 0x02, 0x02, 0x05, 0x41]) = Inr (2, 5, [0x41])"
      by (simp add: decode_chunk_header_def decode_varint_def target_width_def)
  qed simp_all
qed simp_all

lemma overlong_nested: "overlong sample_descr [0x04, 0x03, 0x01, 0x05, 0x07, 0x00, 0x00]"
proof (rule overlong_overlong_payload_overlong_elems.inside)
  show "decode_chunk_header [0x04, 0x03, 0x01, 0x05, 0x07, 0x00, 0x00]
          = Inr (4, 3, [0x01, 0x05, 0x07, 0x00, 0x00])"
    by (simp add: decode_chunk_header_def decode_varint_def target_width_def)
  show "map_of sample_descr 4 = Some (KNested [(1, KInt, VInt 0)], VRecord [(1, VInt 0)])"
    by (simp add: sample_descr_def)
  show "overlong_payload (KNested [(1, KInt, VInt 0)]) (take 3 [0x01, 0x05, 0x07, 0x00, 0x00])"
  proof (rule overlong_overlong_payload_overlong_elems.nested,
      rule overlong_overlong_payload_overlong_elems.here)
    show "decode_chunk_header (take 3 [0x01, 0x05, 0x07, 0x00, 0x00]) = Inr (1, 5, [0x07])"
      by (simp add: decode_chunk_header_def decode_varint_def target_width_def)
  qed simp_all
qed simp_all

subsection \<open>C7: a declared length beyond the end of the stream\<close>

text \<open>
  C7 as stated (every chunk whose declared length exceeds the bytes remaining makes
  \<open>read_record\<close> fail with \<open>MalformedChunk\<close>) fails for a length that is too
  large for the target integer width: the five bytes \<open>80 80 80 80 10\<close> declare
  the length 4294967296, one byte remains, and the reader fails with
  \<open>TruncatedStream\<close>, as \<open>decode_varint\<close> does on overflow.  It also fails for
  tag 0, which ends the record whatever length follows it.
\<close>

theorem overlong_length_not_malformed:
  "decode_varint [0x80, 0x80, 0x80, 0x80, 0x10, 0x41] = Inl TruncatedStream \<and>
   decode_digits [0x80, 0x80, 0x80, 0x80, 0x10, 0x41] = Inr (4294967296, [0x41]) \<and>
   read_record small_descr [0x01, 0x02, 0xAC, 0x02, 0x02, 0x80, 0x80, 0x80, 0x80, 0x10, 0x41]
     = Inl TruncatedStream \<and>
   read_record small_descr [0x00, 0x05] = Inr ([(1, VInt 0), (2, VString [])], [])"
  by (simp add: read_record_def read_fields.simps small_descr_def default_record_def
      decode_chunk_header_def decode_varint_def target_width_def decode_scalar_def
      set_field_def read_block_def)

text \<open>
  C7, amended.  When the reader meets a chunk whose header decodes, whose tag is not
  0 and whose declared length is larger than the number of bytes left in the stream
  it is read from, \<open>read_record\<close> fails with \<open>MalformedChunk\<close> and returns no
  record: at the top level after any number of chunks, inside the payload of a nested
  record, and inside an element of a repeated record (also when the length prefix of
  the element is the one that is too large).  On every input, \<open>read_record\<close> never
  asks the stream for a byte or a block beyond the bytes it has left (it never returns
  \<open>OutOfBounds\<close>), and when it succeeds the bytes it leaves are a suffix of the
  input.
\<close>

theorem overlong_chunk_rejected:
  "(overlong d bs \<longrightarrow> read_record d bs = Inl MalformedChunk) \<and>
   (after_chunks n d (default_record d) bs = Some (cur, post) \<and>
    decode_chunk_header post = Inr (tag, len, body) \<and> tag \<noteq> 0 \<and> length body < len \<longrightarrow>
      read_record d bs = Inl MalformedChunk) \<and>
   read_record d bs \<noteq> Inl OutOfBounds \<and>
   (\<forall>r rest. read_record d bs = Inr (r, rest) \<longrightarrow> (\<exists>pre. bs = pre @ rest))"
proof (intro conjI impI allI)
  assume "overlong d bs"
  then show "read_record d bs = Inl MalformedChunk"
    by (simp add: read_record_def overlong_MalformedChunk(1))
next
  assume h: "after_chunks n d (default_record d) bs = Some (cur, post) \<and>
    decode_chunk_header post = Inr (tag, len, body) \<and> tag \<noteq> 0 \<and> length body < len"
  then have "read_fields d cur post = Inl MalformedChunk"
    by (subst read_fields.simps) simp
  then show "read_record d bs = Inl MalformedChunk"
    using h read_fields_after_chunks [of n d "default_record d" bs cur post]
    by (simp add: read_record_def)
next
  show "read_record d bs \<noteq> Inl OutOfBounds"
    by (simp add: read_record_def reader_in_bounds(1))
next
  fix r rest
  assume "read_record d bs = Inr (r, rest)"
  then show "\<exists>pre. bs = pre @ rest"
    by (simp add: read_record_def read_fields_suffix)
qed

theorem overlong_chunk_rejected_witness:
  "read_record small_descr [0x01, 0x02, 0xAC, 0x02, 0x02, 0x05, 0x41] = Inl MalformedChunk \<and>
   read_record sample_descr [0x04, 0x03, 0x01, 0x05, 0x07, 0x00, 0x00] = Inl MalformedChunk"
  using overlong_chunk_rejected [of small_descr "[0x01, 0x02, 0xAC, 0x02, 0x02, 0x05, 0x41]"]
    overlong_chunk_rejected [of sample_descr "[0x04, 0x03, 0x01, 0x05, 0x07, 0x00, 0x00]"]
    overlong_small overlong_nested
  by blast

end
